theory Spec2Isabelle
  imports Main
begin

section \<open>Extendible hashing: the data model of \<^verbatim>\<open>hashing.cpp\<close>\<close>

text \<open>
  The C++ program keeps a \<^verbatim>\<open>vector<DataBucket *>\<close>: several directory slots may hold
  the same pointer, and \<^verbatim>\<open>remove\<close> releases buckets with \<^verbatim>\<open>delete\<close>. The model
  therefore has an explicit free store: a list of cells indexed by address, a cell being
  \<open>Some b\<close> while the bucket is live and \<open>None\<close> once it is released. Address \<open>0\<close>
  is the null pointer (its cell is never live); \<^verbatim>\<open>new\<close> takes the next unused address.

  Every operation that the C++ standard leaves undefined is a \<open>fault\<close> of the model:
  a shift by a negative amount or by 31 and more (\<^verbatim>\<open>int\<close> has 32 bits), a vector index
  outside the vector, and a dereference of a null or released pointer. \<open>OutOfFuel\<close> is
  not a fault of the program: it is the answer of the recursion bound of \<open>add\<close>, which
  stands for "has not returned yet".
\<close>

datatype fault = NegativeShift | ShiftTooLarge | IndexOutOfRange | NullPointer
  | UseAfterFree | OutOfFuel

type_synonym 'a outcome = "fault + 'a"

definition andThen :: "'a outcome \<Rightarrow> ('a \<Rightarrow> 'b outcome) \<Rightarrow> 'b outcome" where
  "andThen m f = (case m of Inl e \<Rightarrow> Inl e | Inr x \<Rightarrow> f x)"

text \<open>\<^verbatim>\<open>class DataBucket\<close>: \<open>bsize\<close> is the field \<^verbatim>\<open>size\<close> (the capacity), \<open>data\<close> is
  the \<^verbatim>\<open>set<int>\<close>, kept as the strictly ascending list that iterating the set yields.\<close>

record DataBucket =
  bsize :: int
  localDepth :: int
  data :: "int list"

text \<open>\<^verbatim>\<open>class ExtendibleHashMap\<close>: \<open>buckets\<close> is the vector of pointers, \<open>cells\<close> the
  free store they point into.\<close>

record ExtendibleHashMap =
  globalDepth :: int
  bucketSize :: int
  buckets :: "nat list"
  cells :: "DataBucket option list"

subsection \<open>Machine arithmetic\<close>

text \<open>\<^verbatim>\<open>1 << d\<close> on a 32-bit \<^verbatim>\<open>int\<close>.\<close>

definition shl1 :: "int \<Rightarrow> int outcome" where
  "shl1 d = (if d < 0 then Inl NegativeShift
             else if 31 \<le> d then Inl ShiftTooLarge
             else Inr (2 ^ nat d))"

text \<open>\<^verbatim>\<open>a % m\<close> truncates towards zero: the remainder has the sign of \<open>a\<close>.\<close>

definition crem :: "int \<Rightarrow> int \<Rightarrow> int" where
  "crem a m = (if 0 \<le> a then a mod m else - ((- a) mod m))"

text \<open>\<^verbatim>\<open>a / 2\<close> truncates towards zero.\<close>

definition chalf :: "int \<Rightarrow> int" where
  "chalf a = (if 0 \<le> a then a div 2 else - ((- a) div 2))"

text \<open>The conversion of an \<^verbatim>\<open>int\<close> to \<^verbatim>\<open>size_t\<close> (64 bits) that the comparisons
  \<^verbatim>\<open>data.size() <= size\<close> perform on their right operand.\<close>

definition to_size_t :: "int \<Rightarrow> int" where
  "to_size_t a = a mod 2 ^ 64"

subsection \<open>\<^verbatim>\<open>DataBucket\<close>\<close>

text \<open>\<^verbatim>\<open>DataBucket::insert\<close>: the return code (0 inserted, 1 already present,
  2 overflowed) and the bucket afterwards.\<close>

definition bucket_insert :: "int \<Rightarrow> DataBucket \<Rightarrow> int \<times> DataBucket" where
  "bucket_insert d b =
     (if d \<in> set (data b) then (1, b)
      else let b' = b\<lparr>data := insort d (data b)\<rparr>
           in if int (length (data b')) \<le> to_size_t (bsize b') then (0, b') else (2, b'))"

text \<open>\<^verbatim>\<open>DataBucket::erase\<close>.\<close>

definition bucket_erase :: "int \<Rightarrow> DataBucket \<Rightarrow> DataBucket" where
  "bucket_erase k b = b\<lparr>data := remove1 k (data b)\<rparr>"

subsection \<open>Pointers and the vector\<close>

text \<open>\<^verbatim>\<open>buckets[i]\<close>, read.\<close>

definition slot :: "ExtendibleHashMap \<Rightarrow> int \<Rightarrow> nat outcome" where
  "slot s i = (if 0 \<le> i \<and> i < int (length (buckets s)) then Inr (buckets s ! nat i)
               else Inl IndexOutOfRange)"

text \<open>\<^verbatim>\<open>buckets[i] = p\<close>.\<close>

definition set_slot :: "int \<Rightarrow> nat \<Rightarrow> ExtendibleHashMap \<Rightarrow> ExtendibleHashMap outcome" where
  "set_slot i p s = (if 0 \<le> i \<and> i < int (length (buckets s))
                     then Inr (s\<lparr>buckets := (buckets s)[nat i := p]\<rparr>)
                     else Inl IndexOutOfRange)"

text \<open>\<^verbatim>\<open>*p\<close>, read.\<close>

definition deref :: "ExtendibleHashMap \<Rightarrow> nat \<Rightarrow> DataBucket outcome" where
  "deref s p = (if p = 0 then Inl NullPointer
                else if p < length (cells s) then
                  (case cells s ! p of Some b \<Rightarrow> Inr b | None \<Rightarrow> Inl UseAfterFree)
                else Inl UseAfterFree)"

text \<open>A write through \<open>p\<close>, after a successful \<open>deref\<close>.\<close>

definition store :: "nat \<Rightarrow> DataBucket \<Rightarrow> ExtendibleHashMap \<Rightarrow> ExtendibleHashMap" where
  "store p b s = s\<lparr>cells := (cells s)[p := Some b]\<rparr>"

text \<open>\<^verbatim>\<open>new DataBucket(_size, _localDepth)\<close>: the fresh address and the store with the
  new, empty bucket in it.\<close>

definition new_bucket :: "int \<Rightarrow> int \<Rightarrow> ExtendibleHashMap \<Rightarrow> nat \<times> ExtendibleHashMap" where
  "new_bucket sz ld s =
     (length (cells s),
      s\<lparr>cells := cells s @ [Some \<lparr>bsize = sz, localDepth = ld, data = []\<rparr>]\<rparr>)"

text \<open>\<^verbatim>\<open>delete p\<close>: nothing on a null pointer, a fault on a released one.\<close>

definition delete_bucket :: "nat \<Rightarrow> ExtendibleHashMap \<Rightarrow> ExtendibleHashMap outcome" where
  "delete_bucket p s =
     (if p = 0 then Inr s
      else andThen (deref s p) (\<lambda>_. Inr (s\<lparr>cells := (cells s)[p := None]\<rparr>)))"

text \<open>\<^verbatim>\<open>buckets.resize(n)\<close>: new elements are null pointers.\<close>

definition resize :: "int \<Rightarrow> ExtendibleHashMap \<Rightarrow> ExtendibleHashMap" where
  "resize n s =
     s\<lparr>buckets := take (nat n) (buckets s) @ replicate (nat n - length (buckets s)) 0\<rparr>"

section \<open>\<^verbatim>\<open>ExtendibleHashMap\<close>\<close>

text \<open>\<^verbatim>\<open>_getBucketIndex(_key, _globalDepth)\<close> and \<^verbatim>\<open>_getBucketIndex(key)\<close>.\<close>

definition getBucketIndex2 :: "int \<Rightarrow> int \<Rightarrow> int outcome" where
  "getBucketIndex2 key depth = andThen (shl1 depth) (\<lambda>m. Inr (crem key m))"

definition getBucketIndex :: "ExtendibleHashMap \<Rightarrow> int \<Rightarrow> int outcome" where
  "getBucketIndex s key = getBucketIndex2 key (globalDepth s)"

text \<open>The constructors: \<^verbatim>\<open>ExtendibleHashMap(_globalDepth, _size)\<close>; the one-argument
  constructor is \<open>construct 0\<close>.\<close>

definition construct_loop :: "int \<Rightarrow> int \<Rightarrow> nat \<Rightarrow> ExtendibleHashMap \<Rightarrow> ExtendibleHashMap" where
  "construct_loop sz d i s =
     (let (p, s') = new_bucket sz d s in s'\<lparr>buckets := (buckets s')[i := p]\<rparr>)"

definition construct :: "int \<Rightarrow> int \<Rightarrow> ExtendibleHashMap outcome" where
  "construct d sz =
     andThen (shl1 d) (\<lambda>n.
       let s0 = resize n \<lparr>globalDepth = d, bucketSize = sz, buckets = [], cells = [None]\<rparr>
       in Inr (fold (construct_loop sz d) [0 ..< length (buckets s0)] s0))"

text \<open>\<^verbatim>\<open>extend\<close>: the loop copies, for each new index \<open>i\<close>, the pointer at
  \<^verbatim>\<open>_getBucketIndex(i, oldDepth)\<close>.\<close>

definition extend_loop :: "int \<Rightarrow> nat \<Rightarrow> ExtendibleHashMap outcome \<Rightarrow> ExtendibleHashMap outcome" where
  "extend_loop oldDepth i acc =
     andThen acc (\<lambda>s.
     andThen (getBucketIndex2 (int i) oldDepth) (\<lambda>j.
     andThen (slot s j) (\<lambda>p.
     set_slot (int i) p s)))"

definition extend :: "ExtendibleHashMap \<Rightarrow> ExtendibleHashMap outcome" where
  "extend s =
     (let oldDepth = globalDepth s;
          s1 = s\<lparr>globalDepth := globalDepth s + 1\<rparr>
      in andThen (shl1 (globalDepth s1)) (\<lambda>n.
         let s2 = resize n s1
         in andThen (shl1 oldDepth) (\<lambda>start.
            fold (extend_loop oldDepth) [nat start ..< length (buckets s2)] (Inr s2))))"

text \<open>\<^verbatim>\<open>getImageIndex\<close>.\<close>

definition getImageIndex :: "ExtendibleHashMap \<Rightarrow> int \<Rightarrow> int outcome" where
  "getImageIndex s splitIndex =
     andThen (shl1 (globalDepth s - 1)) (\<lambda>oldSize.
       Inr (if splitIndex < oldSize
            then int (length (buckets s)) - (oldSize - splitIndex)
            else splitIndex - oldSize))"

text \<open>\<^verbatim>\<open>splitImage\<close>. The function calls \<^verbatim>\<open>add\<close> for every key it took out of the
  bucket; \<open>add_rec\<close> is that recursive call. The two reads at the head of the loop body
  are in the source, their values are not used.\<close>

definition reinsert :: "(int \<Rightarrow> ExtendibleHashMap \<Rightarrow> (int \<times> ExtendibleHashMap) outcome)
    \<Rightarrow> int \<Rightarrow> ExtendibleHashMap outcome \<Rightarrow> ExtendibleHashMap outcome" where
  "reinsert add_rec element acc =
     andThen acc (\<lambda>s.
     andThen (getBucketIndex s element) (\<lambda>bucketIndex.
     andThen (slot s bucketIndex) (\<lambda>bucket.
     andThen (add_rec element s) (\<lambda>r. Inr (snd r)))))"

definition splitImage :: "(int \<Rightarrow> ExtendibleHashMap \<Rightarrow> (int \<times> ExtendibleHashMap) outcome)
    \<Rightarrow> int \<Rightarrow> ExtendibleHashMap \<Rightarrow> ExtendibleHashMap outcome" where
  "splitImage add_rec splitIndex s =
     andThen (shl1 (globalDepth s - 1)) (\<lambda>halfSize.
     let newBucketIndex = (if splitIndex < halfSize
                           then int (length (buckets s)) - (halfSize - splitIndex)
                           else splitIndex);
         dataCopy = (if splitIndex < halfSize then splitIndex else splitIndex - halfSize);
         (fresh, s1) = new_bucket (bucketSize s) (globalDepth s) s
     in andThen (set_slot newBucketIndex fresh s1) (\<lambda>s2.
        andThen (slot s2 dataCopy) (\<lambda>p.
        andThen (deref s2 p) (\<lambda>b.
        let bucketData = data b;
            s3 = store p (b\<lparr>data := []\<rparr>) s2
        in andThen (deref s3 p) (\<lambda>b'.
           let s4 = store p (b'\<lparr>localDepth := localDepth b' + 1\<rparr>) s3
           in fold (reinsert add_rec) bucketData (Inr s4))))))"

text \<open>\<^verbatim>\<open>add\<close>. The recursion through \<^verbatim>\<open>splitImage\<close> need not end, so the model
  counts the nesting of calls: \<open>add n\<close> answers \<open>Inl OutOfFuel\<close> where the program would
  need more than \<open>n\<close> nested calls of \<^verbatim>\<open>add\<close>.\<close>

primrec add :: "nat \<Rightarrow> int \<Rightarrow> ExtendibleHashMap \<Rightarrow> (int \<times> ExtendibleHashMap) outcome" where
  "add 0 key s = Inl OutOfFuel"
| "add (Suc n) key s =
     andThen (getBucketIndex s key) (\<lambda>bucketIndex.
     andThen (slot s bucketIndex) (\<lambda>bucket.
     andThen (deref s bucket) (\<lambda>b.
     let (ret, b') = bucket_insert key b;
         s1 = store bucket b' s
     in if ret = 2 then
          andThen (if localDepth b' = globalDepth s1 then extend s1 else Inr s1) (\<lambda>s2.
          andThen (splitImage (add n) bucketIndex s2) (\<lambda>s3.
          Inr (bucketIndex, s3)))
        else Inr (bucketIndex, s1))))"

text \<open>\<^verbatim>\<open>reduceDirectory\<close>.\<close>

definition reduceDirectory :: "ExtendibleHashMap \<Rightarrow> ExtendibleHashMap outcome" where
  "reduceDirectory s =
     (let s1 = s\<lparr>globalDepth := globalDepth s - 1\<rparr>
      in andThen (shl1 (globalDepth s1)) (\<lambda>n. Inr (resize n s1)))"

text \<open>The loop of \<^verbatim>\<open>remove\<close> that moves the keys of \<^verbatim>\<open>buckets[image]\<close> into
  \<^verbatim>\<open>buckets[bucketIndex]\<close>, one \<^verbatim>\<open>DataBucket::insert\<close> each (its return code is
  dropped).\<close>

definition merge_loop :: "int \<Rightarrow> int \<Rightarrow> ExtendibleHashMap outcome \<Rightarrow> ExtendibleHashMap outcome" where
  "merge_loop bucketIndex element acc =
     andThen acc (\<lambda>s.
     andThen (slot s bucketIndex) (\<lambda>p.
     andThen (deref s p) (\<lambda>b.
     Inr (store p (snd (bucket_insert element b)) s))))"

text \<open>The body of the \<^verbatim>\<open>if\<close> of \<^verbatim>\<open>remove\<close>, after the swap that makes \<open>bucketIndex\<close>
  the smaller index, in the order of the source: the loop (\<open>merge_keys\<close>), the
  \<^verbatim>\<open>delete\<close>, the assignment to \<^verbatim>\<open>buckets[image]\<close> (together \<open>merge_release\<close>), and
  \<^verbatim>\<open>buckets[bucketIndex]->localDepth--\<close> (\<open>dec_localDepth\<close>).\<close>

definition merge_keys :: "int \<Rightarrow> int \<Rightarrow> ExtendibleHashMap \<Rightarrow> ExtendibleHashMap outcome" where
  "merge_keys bucketIndex img s =
     andThen (slot s img) (\<lambda>q.
     andThen (deref s q) (\<lambda>bq.
     fold (merge_loop bucketIndex) (data bq) (Inr s)))"

definition merge_release :: "int \<Rightarrow> int \<Rightarrow> ExtendibleHashMap \<Rightarrow> ExtendibleHashMap outcome" where
  "merge_release bucketIndex img s =
     andThen (slot s img) (\<lambda>q.
     andThen (delete_bucket q s) (\<lambda>s1.
     andThen (slot s1 bucketIndex) (\<lambda>p.
     set_slot img p s1)))"

definition dec_localDepth :: "int \<Rightarrow> ExtendibleHashMap \<Rightarrow> ExtendibleHashMap outcome" where
  "dec_localDepth bucketIndex s =
     andThen (slot s bucketIndex) (\<lambda>p.
     andThen (deref s p) (\<lambda>b.
     Inr (store p (b\<lparr>localDepth := localDepth b - 1\<rparr>) s)))"

definition merge :: "int \<Rightarrow> int \<Rightarrow> ExtendibleHashMap \<Rightarrow> ExtendibleHashMap outcome" where
  "merge bucketIndex img s =
     andThen (merge_keys bucketIndex img s) (\<lambda>s1.
     andThen (merge_release bucketIndex img s1) (\<lambda>s2.
     dec_localDepth bucketIndex s2))"

text \<open>The condition of that \<^verbatim>\<open>if\<close>; \<^verbatim>\<open>&&\<close> evaluates its right operand only when the
  left one holds.\<close>

definition small :: "ExtendibleHashMap \<Rightarrow> int \<Rightarrow> bool outcome" where
  "small s i =
     andThen (slot s i) (\<lambda>p.
     andThen (deref s p) (\<lambda>b.
     Inr (int (length (data b)) \<le> to_size_t (chalf (bucketSize s)))))"

definition merge_condition :: "ExtendibleHashMap \<Rightarrow> int \<Rightarrow> int \<Rightarrow> bool outcome" where
  "merge_condition s bucketIndex img =
     (if img \<noteq> bucketIndex then
        andThen (small s bucketIndex) (\<lambda>c1.
        if c1 then small s img else Inr False)
      else Inr False)"

text \<open>The loop that compares every bucket's local depth with that of \<^verbatim>\<open>buckets[0]\<close>
  and stops at the first difference.\<close>

fun depths_equal :: "ExtendibleHashMap \<Rightarrow> nat list \<Rightarrow> bool outcome" where
  "depths_equal s [] = Inr True"
| "depths_equal s (i # rest) =
     andThen (slot s (int i)) (\<lambda>p.
     andThen (deref s p) (\<lambda>b.
     andThen (slot s 0) (\<lambda>p0.
     andThen (deref s p0) (\<lambda>b0.
     if localDepth b \<noteq> localDepth b0 then Inr False else depths_equal s rest))))"

text \<open>The tail of \<^verbatim>\<open>remove\<close>: the scan and the conditional \<^verbatim>\<open>reduceDirectory\<close>.\<close>

definition shrink_check :: "ExtendibleHashMap \<Rightarrow> ExtendibleHashMap outcome" where
  "shrink_check s =
     andThen (depths_equal s [1 ..< length (buckets s)]) (\<lambda>areLocalDepthsEqual.
     if areLocalDepthsEqual then
       andThen (slot s 0) (\<lambda>p0.
       andThen (deref s p0) (\<lambda>b0.
       if globalDepth s - 1 = localDepth b0 then reduceDirectory s else Inr s))
     else Inr s)"

text \<open>\<^verbatim>\<open>remove\<close>.\<close>

definition remove :: "int \<Rightarrow> ExtendibleHashMap \<Rightarrow> ExtendibleHashMap outcome" where
  "remove key s =
     andThen (getBucketIndex s key) (\<lambda>bucketIndex.
     andThen (getImageIndex s bucketIndex) (\<lambda>img.
     andThen (slot s bucketIndex) (\<lambda>p.
     andThen (deref s p) (\<lambda>b.
     let s1 = store p (bucket_erase key b) s
     in andThen (merge_condition s1 bucketIndex img) (\<lambda>c.
        andThen (if c then merge (min bucketIndex img) (max bucketIndex img) s1
                 else Inr s1) (\<lambda>s2.
        shrink_check s2))))))"

section \<open>Driving the table\<close>

text \<open>The commands of \<^verbatim>\<open>main\<close>: \<^verbatim>\<open>1 x\<close> and \<^verbatim>\<open>2 x\<close>.\<close>

datatype command = Insert int | Remove int

definition exec :: "nat \<Rightarrow> command \<Rightarrow> ExtendibleHashMap \<Rightarrow> ExtendibleHashMap outcome" where
  "exec n c s = (case c of
       Insert x \<Rightarrow> andThen (add n x s) (\<lambda>r. Inr (snd r))
     | Remove x \<Rightarrow> remove x s)"

definition run :: "nat \<Rightarrow> command list \<Rightarrow> ExtendibleHashMap outcome \<Rightarrow> ExtendibleHashMap outcome" where
  "run n cs start = fold (\<lambda>c acc. andThen acc (exec n c)) cs start"

section \<open>Observations of a table\<close>

text \<open>The table that \<^verbatim>\<open>main\<close> builds: \<^verbatim>\<open>new ExtendibleHashMap(0, 2)\<close>, then the given
  commands, each with room for \<open>n\<close> nested calls of \<^verbatim>\<open>add\<close>.\<close>

definition session :: "nat \<Rightarrow> command list \<Rightarrow> ExtendibleHashMap outcome" where
  "session n cs = run n cs (construct 0 2)"

text \<open>The key is in the bucket that slot \<open>i\<close> points to.\<close>

definition resides :: "ExtendibleHashMap \<Rightarrow> int \<Rightarrow> int \<Rightarrow> bool" where
  "resides s key i =
     (case andThen (slot s i) (deref s) of Inr b \<Rightarrow> key \<in> set (data b) | Inl e \<Rightarrow> False)"

text \<open>The key is in no bucket of the free store.\<close>

definition absent :: "ExtendibleHashMap \<Rightarrow> int \<Rightarrow> bool" where
  "absent s key =
     list_all (\<lambda>c. case c of None \<Rightarrow> True | Some b \<Rightarrow> key \<notin> set (data b)) (cells s)"

text \<open>The slots that hold the pointer \<open>p\<close>.\<close>

definition referencing :: "ExtendibleHashMap \<Rightarrow> nat \<Rightarrow> nat list" where
  "referencing s p = filter (\<lambda>i. buckets s ! i = p) [0 ..< length (buckets s)]"

text \<open>The reference-counting invariant of the specification, for the bucket at \<open>p\<close>:
  it is live, \<open>2 ^ (globalDepth - localDepth)\<close> slots hold \<open>p\<close>, and their indices agree
  on the low \<open>localDepth\<close> bits.\<close>

definition refcount_ok :: "ExtendibleHashMap \<Rightarrow> nat \<Rightarrow> bool" where
  "refcount_ok s p =
     (case deref s p of
        Inl e \<Rightarrow> False
      | Inr b \<Rightarrow>
          0 \<le> localDepth b \<and> localDepth b \<le> globalDepth s \<and>
          int (length (referencing s p)) = 2 ^ nat (globalDepth s - localDepth b) \<and>
          list_all (\<lambda>i. list_all (\<lambda>j. i mod 2 ^ nat (localDepth b) = j mod 2 ^ nat (localDepth b))
                       (referencing s p)) (referencing s p))"

definition refcount_inv :: "ExtendibleHashMap \<Rightarrow> bool" where
  "refcount_inv s = list_all (refcount_ok s) (buckets s)"

subsection \<open>Well-formed tables and the effect of a split\<close>

text \<open>The bucket behind a live pointer.\<close>

definition bucket_at :: "ExtendibleHashMap \<Rightarrow> nat \<Rightarrow> DataBucket" where
  "bucket_at s p = the (cells s ! p)"

text \<open>A well-formed table: the directory has \<open>2 ^ globalDepth\<close> slots, with a depth
  that \<^verbatim>\<open>1 << globalDepth\<close> can take, and every slot holds a live, non-null pointer.\<close>

definition wf :: "ExtendibleHashMap \<Rightarrow> bool" where
  "wf s \<longleftrightarrow>
     0 \<le> globalDepth s \<and> globalDepth s < 31 \<and>
     length (buckets s) = 2 ^ nat (globalDepth s) \<and>
     (\<forall>p \<in> set (buckets s). 0 < p \<and> p < length (cells s) \<and> cells s ! p \<noteq> None)"

text \<open>In the words of the specification: when the overflowed slot lies in the lower
  half of the directory the new bucket goes to its image slot, otherwise to the
  overflowed slot itself, and the other slot of the pair, in the lower half, is the one
  whose bucket is emptied.\<close>

definition split_target :: "ExtendibleHashMap \<Rightarrow> int \<Rightarrow> int" where
  "split_target s i =
     (if i < 2 ^ nat (globalDepth s - 1) then i + 2 ^ nat (globalDepth s - 1) else i)"

definition split_source :: "ExtendibleHashMap \<Rightarrow> int \<Rightarrow> int" where
  "split_source s i =
     (if i < 2 ^ nat (globalDepth s - 1) then i else i - 2 ^ nat (globalDepth s - 1))"

text \<open>The table between the two halves of \<^verbatim>\<open>splitImage\<close>, in the words of the
  specification: a fresh, empty bucket of local depth \<open>globalDepth\<close> and of the table's
  capacity sits in the target slot, the bucket of the source slot has lost all its keys
  and its local depth is one more. The keys wait to be inserted again.\<close>

definition split_state :: "int \<Rightarrow> ExtendibleHashMap \<Rightarrow> ExtendibleHashMap" where
  "split_state i s =
     (let fresh = length (cells s);
          p = buckets s ! nat (split_source s i);
          b = bucket_at s p
      in s\<lparr>buckets := (buckets s)[nat (split_target s i) := fresh],
           cells := (cells s @ [Some \<lparr>bsize = bucketSize s, localDepth = globalDepth s,
                                      data = []\<rparr>])
                    [p := Some (b\<lparr>data := [], localDepth := localDepth b + 1\<rparr>)]\<rparr>)"

text \<open>The table after \<^verbatim>\<open>extend\<close>, in the words of the specification: the depth is one
  more, the slot array has doubled, and the new upper half repeats the lower half.\<close>

definition extended :: "ExtendibleHashMap \<Rightarrow> ExtendibleHashMap" where
  "extended s = s\<lparr>globalDepth := globalDepth s + 1, buckets := buckets s @ buckets s\<rparr>"

subsection \<open>The effect of a merge and of a shrink\<close>

text \<open>In the words of the specification: the image of slot \<open>i\<close> is
  \<open>directoryLength - (oldHalf - i)\<close> when \<open>i < oldHalf\<close>, else \<open>i - oldHalf\<close>, where
  \<open>oldHalf = 2 ^ (globalDepth - 1)\<close>.\<close>

definition image_slot :: "ExtendibleHashMap \<Rightarrow> int \<Rightarrow> int" where
  "image_slot s i =
     (if i < 2 ^ nat (globalDepth s - 1)
      then int (length (buckets s)) - (2 ^ nat (globalDepth s - 1) - i)
      else i - 2 ^ nat (globalDepth s - 1))"

text \<open>The table after the key has been erased from the bucket of slot \<open>i\<close>.\<close>

definition erased :: "int \<Rightarrow> int \<Rightarrow> ExtendibleHashMap \<Rightarrow> ExtendibleHashMap" where
  "erased key i s =
     store (buckets s ! nat i) (bucket_erase key (bucket_at s (buckets s ! nat i))) s"

text \<open>The bucket of slot \<open>i\<close> holds at most \<open>capacity / 2\<close> keys.\<close>

definition underfull :: "ExtendibleHashMap \<Rightarrow> int \<Rightarrow> bool" where
  "underfull s i \<longleftrightarrow>
     int (length (data (bucket_at s (buckets s ! nat i)))) \<le> bucketSize s div 2"

text \<open>The keys \<open>src\<close> moved into a bucket that holds the keys \<open>dst\<close>.\<close>

definition moved_keys :: "int list \<Rightarrow> int list \<Rightarrow> int list" where
  "moved_keys src dst = fold (\<lambda>e d. if e \<in> set d then d else insort e d) src dst"

text \<open>The merge, in the words of the specification: the bucket of the lower slot \<open>lo\<close>
  survives and receives every key of the bucket of the higher slot \<open>hi\<close>, the higher
  bucket is released, the higher slot points to the survivor, and the survivor's local
  depth is one less.\<close>

definition merged :: "int \<Rightarrow> int \<Rightarrow> ExtendibleHashMap \<Rightarrow> ExtendibleHashMap" where
  "merged lo hi s =
     (let p = buckets s ! nat lo; q = buckets s ! nat hi; b = bucket_at s p
      in s\<lparr>buckets := (buckets s)[nat hi := p],
           cells := (cells s)[q := None,
                     p := Some (b\<lparr>data := moved_keys (data (bucket_at s q)) (data b),
                                 localDepth := localDepth b - 1\<rparr>)]\<rparr>)"

text \<open>The shrink, in the words of the specification: when every bucket of the directory
  has local depth \<open>globalDepth - 1\<close>, the global depth is one less and the slot array
  loses its upper half.\<close>

definition all_depths :: "ExtendibleHashMap \<Rightarrow> int \<Rightarrow> bool" where
  "all_depths s d \<longleftrightarrow> (\<forall>p \<in> set (buckets s). localDepth (bucket_at s p) = d)"

definition halved :: "ExtendibleHashMap \<Rightarrow> ExtendibleHashMap" where
  "halved s = s\<lparr>globalDepth := globalDepth s - 1,
                 buckets := take (2 ^ nat (globalDepth s - 1)) (buckets s)\<rparr>"

definition shrunk :: "ExtendibleHashMap \<Rightarrow> ExtendibleHashMap" where
  "shrunk s = (if all_depths s (globalDepth s - 1) then halved s else s)"

subsection \<open>What holds of every table that the public operations produce\<close>

text \<open>The key is in the bucket that its address leads to.\<close>

definition present :: "ExtendibleHashMap \<Rightarrow> int \<Rightarrow> bool" where
  "present s key = (case getBucketIndex s key of Inr i \<Rightarrow> resides s key i | Inl e \<Rightarrow> False)"

text \<open>The directory grows by doubling, and after a doubling the program only ever
  writes into the upper half. So at every level \<open>j\<close> (the first \<open>2 ^ (j + 1)\<close> slots):
  a pointer in the upper half of the level that differs from the pointer of its image
  in the lower half occurs nowhere else in the level.\<close>

definition private_upper :: "nat list \<Rightarrow> bool" where
  "private_upper bs \<longleftrightarrow>
     (\<forall>j l i. 2 ^ Suc j \<le> length bs \<longrightarrow> l < 2 ^ j \<longrightarrow> bs ! l \<noteq> bs ! (l + 2 ^ j) \<longrightarrow>
              i < 2 ^ Suc j \<longrightarrow> bs ! i = bs ! (l + 2 ^ j) \<longrightarrow> i = l + 2 ^ j)"

text \<open>The key \<open>x\<close> leads to the pointer \<open>p\<close>, or will as soon as its address is a valid
  index: a key that is not negative has the address \<open>x mod 2 ^ globalDepth\<close>, a negative
  key has a valid address only when that is 0.\<close>

definition leads_to :: "ExtendibleHashMap \<Rightarrow> int \<Rightarrow> nat \<Rightarrow> bool" where
  "leads_to s x p \<longleftrightarrow>
     (0 \<le> x \<longrightarrow> buckets s ! nat (x mod 2 ^ nat (globalDepth s)) = p) \<and>
     (x < 0 \<longrightarrow> buckets s ! 0 = p)"

text \<open>Every key of every bucket of the directory leads to that bucket.\<close>

definition addressed :: "ExtendibleHashMap \<Rightarrow> bool" where
  "addressed s \<longleftrightarrow>
     (\<forall>p \<in> set (buckets s). \<forall>x \<in> set (data (bucket_at s p)). leads_to s x p)"

text \<open>The capacity is that of an \<^verbatim>\<open>int\<close> that is not negative, every bucket of the
  directory has it, and holds no key twice and no more keys than the capacity.\<close>

definition within_capacity :: "ExtendibleHashMap \<Rightarrow> bool" where
  "within_capacity s \<longleftrightarrow>
     0 \<le> bucketSize s \<and> bucketSize s < 2 ^ 31 \<and>
     (\<forall>p \<in> set (buckets s).
        bsize (bucket_at s p) = bucketSize s \<and> distinct (data (bucket_at s p)) \<and>
        int (length (data (bucket_at s p))) \<le> bucketSize s)"

text \<open>A bucket in the upper half of the directory that differs from the bucket of its
  image slot has the global depth as its local depth.\<close>

definition image_depth :: "ExtendibleHashMap \<Rightarrow> bool" where
  "image_depth s \<longleftrightarrow>
     (\<forall>l. 1 \<le> globalDepth s \<longrightarrow> l < 2 ^ nat (globalDepth s - 1) \<longrightarrow>
          buckets s ! l \<noteq> buckets s ! (l + 2 ^ nat (globalDepth s - 1)) \<longrightarrow>
          localDepth (bucket_at s (buckets s ! (l + 2 ^ nat (globalDepth s - 1)))) = globalDepth s)"

text \<open>At global depth 0 the single bucket has local depth 0.\<close>

definition depth_zero :: "ExtendibleHashMap \<Rightarrow> bool" where
  "depth_zero s \<longleftrightarrow> (globalDepth s = 0 \<longrightarrow> localDepth (bucket_at s (buckets s ! 0)) = 0)"

definition invariant :: "ExtendibleHashMap \<Rightarrow> bool" where
  "invariant s \<longleftrightarrow>
     wf s \<and> private_upper (buckets s) \<and> addressed s \<and> within_capacity s \<and>
     image_depth s \<and> depth_zero s"

text \<open>What a call of \<open>add\<close> with nesting bound \<open>n\<close> guarantees when it returns, on a
  table that satisfies the invariant: the invariant again, the same capacity, the key
  in its place, and in their places the keys of the bucket it went to that were in
  their places before.\<close>

definition add_ok :: "nat \<Rightarrow> bool" where
  "add_ok n \<longleftrightarrow>
     (\<forall>k s r s'. invariant s \<longrightarrow> add n k s = Inr (r, s') \<longrightarrow>
        invariant s' \<and> bucketSize s' = bucketSize s \<and> present s' k \<and>
        (\<forall>p. slot s r = Inr p \<longrightarrow>
             (\<forall>x \<in> set (data (bucket_at s p)). present s x \<longrightarrow> present s' x)))"

text \<open>The tables that the public operations produce: a constructor with a capacity
  that is not negative, then calls of \<^verbatim>\<open>add\<close> and \<^verbatim>\<open>remove\<close> that return.\<close>

inductive reachable :: "ExtendibleHashMap \<Rightarrow> bool" where
  constructed: "construct d sz = Inr s \<Longrightarrow> 0 \<le> sz \<Longrightarrow> sz < 2 ^ 31 \<Longrightarrow> reachable s"
| inserted: "reachable s \<Longrightarrow> add n key s = Inr (r, s') \<Longrightarrow> reachable s'"
| removed: "reachable s \<Longrightarrow> remove key s = Inr s' \<Longrightarrow> reachable s'"

text \<open>Tables on which \<^verbatim>\<open>insert(4)\<close> does not return: the directory has at least 16
  slots, slots 0, 2 and 4 hold one bucket of capacity 2, and that bucket holds the keys
  0 and 2.\<close>

definition looping :: "ExtendibleHashMap \<Rightarrow> bool" where
  "looping s \<longleftrightarrow>
     wf s \<and> 4 \<le> globalDepth s \<and> bucketSize s = 2 \<and>
     buckets s ! 0 = buckets s ! 4 \<and> buckets s ! 2 = buckets s ! 4 \<and>
     bsize (bucket_at s (buckets s ! 4)) = 2 \<and>
     data (bucket_at s (buckets s ! 4)) = [0, 2]"

subsection \<open>Tables of the scenarios\<close>

text \<open>The table of the specification's scenario, after the commands
  \<^verbatim>\<open>1 1\<close>, \<^verbatim>\<open>1 2\<close>, \<^verbatim>\<open>1 3\<close>, \<^verbatim>\<open>1 4\<close>, \<^verbatim>\<open>1 5\<close>.\<close>

definition table_1_5 :: ExtendibleHashMap where
  "table_1_5 = \<lparr>globalDepth = 2, bucketSize = 2, buckets = [1, 2, 1, 3],
     cells = [None, Some \<lparr>bsize = 2, localDepth = 1, data = [2, 4]\<rparr>,
              Some \<lparr>bsize = 2, localDepth = 2, data = [1, 5]\<rparr>,
              Some \<lparr>bsize = 2, localDepth = 2, data = [3]\<rparr>]\<rparr>"

text \<open>That table after \<^verbatim>\<open>remove(4)\<close> has erased the key, and then after the loop,
  the \<^verbatim>\<open>delete\<close> and the assignment of the merge.\<close>

definition table_1_5_erased :: ExtendibleHashMap where
  "table_1_5_erased = \<lparr>globalDepth = 2, bucketSize = 2, buckets = [1, 2, 1, 3],
     cells = [None, Some \<lparr>bsize = 2, localDepth = 1, data = [2]\<rparr>,
              Some \<lparr>bsize = 2, localDepth = 2, data = [1, 5]\<rparr>,
              Some \<lparr>bsize = 2, localDepth = 2, data = [3]\<rparr>]\<rparr>"

definition table_1_5_released :: ExtendibleHashMap where
  "table_1_5_released = \<lparr>globalDepth = 2, bucketSize = 2, buckets = [1, 2, 1, 3],
     cells = [None, None,
              Some \<lparr>bsize = 2, localDepth = 2, data = [1, 5]\<rparr>,
              Some \<lparr>bsize = 2, localDepth = 2, data = [3]\<rparr>]\<rparr>"

text \<open>After \<^verbatim>\<open>1 1\<close>, \<^verbatim>\<open>1 2\<close>, and then after \<^verbatim>\<open>1 3\<close>.\<close>

definition table_1_2 :: ExtendibleHashMap where
  "table_1_2 = \<lparr>globalDepth = 0, bucketSize = 2, buckets = [1],
     cells = [None, Some \<lparr>bsize = 2, localDepth = 0, data = [1, 2]\<rparr>]\<rparr>"

definition table_1_3 :: ExtendibleHashMap where
  "table_1_3 = \<lparr>globalDepth = 1, bucketSize = 2, buckets = [1, 2],
     cells = [None, Some \<lparr>bsize = 2, localDepth = 1, data = [2]\<rparr>,
              Some \<lparr>bsize = 2, localDepth = 1, data = [1, 3]\<rparr>]\<rparr>"

text \<open>After \<^verbatim>\<open>1 0\<close>, \<^verbatim>\<open>1 1\<close>, \<^verbatim>\<open>1 2\<close>, \<^verbatim>\<open>1 5\<close>, \<^verbatim>\<open>1 9\<close>, and then after \<^verbatim>\<open>1 4\<close>.\<close>

definition table_five_keys :: ExtendibleHashMap where
  "table_five_keys = \<lparr>globalDepth = 3, bucketSize = 2, buckets = [1, 2, 1, 3, 1, 4, 1, 3],
     cells = [None, Some \<lparr>bsize = 2, localDepth = 1, data = [0, 2]\<rparr>,
              Some \<lparr>bsize = 2, localDepth = 3, data = [1, 9]\<rparr>,
              Some \<lparr>bsize = 2, localDepth = 2, data = []\<rparr>,
              Some \<lparr>bsize = 2, localDepth = 3, data = [5]\<rparr>]\<rparr>"

definition table_six_keys :: ExtendibleHashMap where
  "table_six_keys = \<lparr>globalDepth = 3, bucketSize = 2, buckets = [1, 2, 1, 3, 5, 4, 1, 3],
     cells = [None, Some \<lparr>bsize = 2, localDepth = 2, data = [0, 2]\<rparr>,
              Some \<lparr>bsize = 2, localDepth = 3, data = [1, 9]\<rparr>,
              Some \<lparr>bsize = 2, localDepth = 2, data = []\<rparr>,
              Some \<lparr>bsize = 2, localDepth = 3, data = [5]\<rparr>,
              Some \<lparr>bsize = 2, localDepth = 3, data = [4]\<rparr>]\<rparr>"

text \<open>After \<^verbatim>\<open>1 0\<close>, \<^verbatim>\<open>1 2\<close>, \<^verbatim>\<open>1 4\<close>, \<^verbatim>\<open>2 2\<close>, \<^verbatim>\<open>2 0\<close>, and then after a second
  \<^verbatim>\<open>2 0\<close>.\<close>

definition table_only_4 :: ExtendibleHashMap where
  "table_only_4 = \<lparr>globalDepth = 1, bucketSize = 2, buckets = [1, 2],
     cells = [None, Some \<lparr>bsize = 2, localDepth = 1, data = [4]\<rparr>,
              Some \<lparr>bsize = 2, localDepth = 1, data = []\<rparr>, None]\<rparr>"

definition table_only_4_shrunk :: ExtendibleHashMap where
  "table_only_4_shrunk = \<lparr>globalDepth = 0, bucketSize = 2, buckets = [1],
     cells = [None, Some \<lparr>bsize = 2, localDepth = 0, data = [4]\<rparr>, None, None]\<rparr>"

text \<open>After \<^verbatim>\<open>1 0\<close>, \<^verbatim>\<open>1 1\<close>, \<^verbatim>\<open>1 2\<close>, \<^verbatim>\<open>1 9\<close>, \<^verbatim>\<open>1 17\<close>.\<close>

definition table_before_4 :: ExtendibleHashMap where
  "table_before_4 = \<lparr>globalDepth = 4, bucketSize = 2,
     buckets = [1, 2, 1, 3, 1, 4, 1, 3, 1, 5, 1, 3, 1, 4, 1, 3],
     cells = [None, Some \<lparr>bsize = 2, localDepth = 1, data = [0, 2]\<rparr>,
              Some \<lparr>bsize = 2, localDepth = 4, data = [1, 17]\<rparr>,
              Some \<lparr>bsize = 2, localDepth = 2, data = []\<rparr>,
              Some \<lparr>bsize = 2, localDepth = 3, data = []\<rparr>,
              Some \<lparr>bsize = 2, localDepth = 4, data = [9]\<rparr>]\<rparr>"

text \<open>The table that \<^verbatim>\<open>main\<close> constructs.\<close>

definition table_fresh :: ExtendibleHashMap where
  "table_fresh = \<lparr>globalDepth = 0, bucketSize = 2, buckets = [1],
     cells = [None, Some \<lparr>bsize = 2, localDepth = 0, data = []\<rparr>]\<rparr>"

text \<open>The table of the scenario after \<^verbatim>\<open>remove(4)\<close> has erased the key, with the local
  depth of the bucket of slots 0 and 2 decremented while the bucket is live; and the
  table that a merge of slot 0 with slot 2, as the specification words it, would
  leave.\<close>

definition table_1_5_decremented :: ExtendibleHashMap where
  "table_1_5_decremented = \<lparr>globalDepth = 2, bucketSize = 2, buckets = [1, 2, 1, 3],
     cells = [None, Some \<lparr>bsize = 2, localDepth = 0, data = [2]\<rparr>,
              Some \<lparr>bsize = 2, localDepth = 2, data = [1, 5]\<rparr>,
              Some \<lparr>bsize = 2, localDepth = 2, data = [3]\<rparr>]\<rparr>"

definition table_1_5_merged :: ExtendibleHashMap where
  "table_1_5_merged = \<lparr>globalDepth = 2, bucketSize = 2, buckets = [1, 2, 1, 3],
     cells = [None, Some \<lparr>bsize = 2, localDepth = 0, data = [2]\<rparr>,
              Some \<lparr>bsize = 2, localDepth = 2, data = [1, 5]\<rparr>,
              Some \<lparr>bsize = 2, localDepth = 2, data = [3]\<rparr>]\<rparr>"

text \<open>After \<^verbatim>\<open>1 1\<close>, \<^verbatim>\<open>1 2\<close>: the table that \<^verbatim>\<open>insert(3)\<close> hands to \<^verbatim>\<open>splitImage\<close>,
  with the key 3 in the overflowed bucket and the directory extended.\<close>

definition table_1_2_extended :: ExtendibleHashMap where
  "table_1_2_extended = \<lparr>globalDepth = 1, bucketSize = 2, buckets = [1, 1],
     cells = [None, Some \<lparr>bsize = 2, localDepth = 0, data = [1, 2, 3]\<rparr>]\<rparr>"

section \<open>Properties\<close>

subsection \<open>The reference-counting invariant\<close>

text \<open>
  Claim C1 (every insert and every remove preserves the reference-counting invariant)
  does not hold of the program. After the inserts 0, 1, 2, 5, 9 the table of
  \<^verbatim>\<open>main\<close> satisfies the invariant; the bucket of slots 0, 2, 4, 6 has local depth 1 at
  global depth 3. \<^verbatim>\<open>insert(4)\<close> overflows it, \<^verbatim>\<open>splitImage\<close> repoints the single slot 4
  to the new bucket and adds one to the local depth: the old bucket now has local depth
  2 and is held by the three slots 0, 2 and 6, where the invariant wants two slots that
  agree modulo 4.
\<close>

theorem insert_breaks_refcount:
  "session 8 [Insert 0, Insert 1, Insert 2, Insert 5, Insert 9] = Inr table_five_keys \<and>
   refcount_inv table_five_keys \<and>
   add 8 4 table_five_keys = Inr (4, table_six_keys) \<and>
   referencing table_six_keys 1 = [0, 2, 6] \<and>
   \<not> refcount_inv table_six_keys"
  by code_simp

subsection \<open>The value that \<^verbatim>\<open>add\<close> returns\<close>

text \<open>
  Claim C2 (insert returns the slot at which the key resides when the call completes)
  does not hold of the program: \<^verbatim>\<open>add\<close> returns the index it computed before the
  directory was extended and the bucket split. With keys 1 and 2 in the table of
  \<^verbatim>\<open>main\<close>, \<^verbatim>\<open>insert(3)\<close> returns 0, and the key 3 is then in the bucket of slot 1, its
  address under the new global depth, and not in the bucket of slot 0.
\<close>

theorem add_returns_index_before_split:
  "session 8 [Insert 1, Insert 2] = Inr table_1_2 \<and>
   add 8 3 table_1_2 = Inr (0, table_1_3) \<and>
   getBucketIndex table_1_3 3 = Inr 1 \<and>
   resides table_1_3 3 1 \<and>
   \<not> resides table_1_3 3 0"
  by code_simp

subsection \<open>Removing a key that is not in the table\<close>

text \<open>
  Claim C3 (removing an absent key changes nothing) does not hold of the program: the
  merge and the shrink of \<^verbatim>\<open>remove\<close> do not ask whether a key was erased. After
  inserting 0, 2, 4 and removing 2 and 0, the table has two slots and the single key 4;
  removing the absent key 0 once more merges the two buckets, releases one of them and
  halves the directory.
\<close>

theorem remove_absent_key_merges_and_shrinks:
  "session 8 [Insert 0, Insert 2, Insert 4, Remove 2, Remove 0] = Inr table_only_4 \<and>
   absent table_only_4 0 \<and>
   remove 0 table_only_4 = Inr table_only_4_shrunk \<and>
   globalDepth table_only_4 = 1 \<and> globalDepth table_only_4_shrunk = 0 \<and>
   length (buckets table_only_4) = 2 \<and> length (buckets table_only_4_shrunk) = 1 \<and>
   deref table_only_4 2 = Inr \<lparr>bsize = 2, localDepth = 1, data = []\<rparr> \<and>
   deref table_only_4_shrunk 2 = Inl UseAfterFree"
  by code_simp

subsection \<open>Faults of the public operations\<close>

text \<open>
  Claim C4 (no insert and no remove reaches a negative shift, an index outside the
  directory or a released bucket) does not hold of the program.
  \<^item> On the table that \<^verbatim>\<open>main\<close> constructs (global depth 0) every \<^verbatim>\<open>remove\<close> starts with
    \<^verbatim>\<open>getImageIndex\<close>, which shifts by \<open>globalDepth - 1 = -1\<close>.
  \<^item> After the inserts 1, 2, 3 the global depth is 1 and \<^verbatim>\<open>insert(-1)\<close> computes the
    index \<open>-1 % 2 = -1\<close>.
  \<^item> After the inserts 1 to 5, \<^verbatim>\<open>remove(4)\<close> releases a bucket and then decrements its
    local depth.
\<close>

theorem public_operations_fault:
  "andThen (construct 0 2) (remove 0) = Inl NegativeShift \<and>
   session 8 [Insert 1, Insert 2, Insert 3] = Inr table_1_3 \<and>
   getBucketIndex table_1_3 (- 1) = Inr (- 1) \<and>
   add 8 (- 1) table_1_3 = Inl IndexOutOfRange \<and>
   remove (- 1) table_1_3 = Inl IndexOutOfRange \<and>
   session 8 [Insert 1, Insert 2, Insert 3, Insert 4, Insert 5] = Inr table_1_5 \<and>
   remove 4 table_1_5 = Inl UseAfterFree"
  by code_simp

subsection \<open>A merge of a bucket with itself\<close>

text \<open>
  Claim C5: there is a reachable table and a key for which the merge of \<^verbatim>\<open>remove\<close> runs
  on two slots that hold the same bucket. In the table of the specification's scenario
  (capacity 2, inserts 1 to 5), \<^verbatim>\<open>remove(4)\<close> hashes to slot 0, whose image is slot 2;
  both hold the bucket at address 1, of local depth 1, which is what its two slots out
  of four require. The condition of the merge compares the indices 0 and 2 and holds.
  The loop inserts the bucket's keys into the bucket itself (no change); \<^verbatim>\<open>delete\<close>
  releases the bucket while slots 0 and 2 still hold its address; and
  \<^verbatim>\<open>buckets[bucketIndex]->localDepth--\<close> then is a write to the released bucket.
  What that statement does to the local depth shows on the table before the release,
  where the bucket can be read: it takes the local depth from 1 to 0, and with local
  depth 0 the bucket, still held by the two slots 0 and 2 out of four, no longer meets
  what the number of its slots requires.
\<close>

theorem merge_of_a_bucket_with_itself:
  "session 8 [Insert 1, Insert 2, Insert 3, Insert 4, Insert 5] = Inr table_1_5 \<and>
   getBucketIndex table_1_5 4 = Inr 0 \<and>
   getImageIndex table_1_5 0 = Inr 2 \<and>
   slot table_1_5 0 = Inr 1 \<and> slot table_1_5 2 = Inr 1 \<and>
   deref table_1_5 1 = Inr \<lparr>bsize = 2, localDepth = 1, data = [2, 4]\<rparr> \<and>
   refcount_ok table_1_5 1 \<and>
   store 1 (bucket_erase 4 \<lparr>bsize = 2, localDepth = 1, data = [2, 4]\<rparr>) table_1_5
     = table_1_5_erased \<and>
   merge_condition table_1_5_erased 0 2 = Inr True \<and>
   merge_keys 0 2 table_1_5_erased = Inr table_1_5_erased \<and>
   merge_release 0 2 table_1_5_erased = Inr table_1_5_released \<and>
   referencing table_1_5_released 1 = [0, 2] \<and>
   deref table_1_5_released 1 = Inl UseAfterFree \<and>
   dec_localDepth 0 table_1_5_released = Inl UseAfterFree \<and>
   merge 0 2 table_1_5_erased = Inl UseAfterFree \<and>
   remove 4 table_1_5 = Inl UseAfterFree \<and>
   refcount_ok table_1_5_erased 1 \<and>
   dec_localDepth 0 table_1_5_erased = Inr table_1_5_decremented \<and>
   deref table_1_5_decremented 1 = Inr \<lparr>bsize = 2, localDepth = 0, data = [2]\<rparr> \<and>
   referencing table_1_5_decremented 1 = [0, 2] \<and>
   \<not> refcount_ok table_1_5_decremented 1"
  by code_simp

subsection \<open>The merge and the shrink of \<^verbatim>\<open>remove\<close>\<close>

text \<open>
  Claim C8 (every \<^verbatim>\<open>remove\<close> erases the key, then merges exactly when the image slot
  differs from the slot of the key and both buckets hold at most half the capacity,
  the bucket of the lower slot surviving with the keys of the other and with its local
  depth one less, and then shrinks the directory exactly when every local depth is
  \<open>globalDepth - 1\<close>) does not hold of the program.
  \<^item> On the table that \<^verbatim>\<open>main\<close> constructs (global depth 0) \<^verbatim>\<open>remove\<close> computes the image
    slot first, with the shift \<^verbatim>\<open>1 << -1\<close>: nothing is erased, and no merge and no shrink
    is decided.
  \<^item> After the inserts 1 to 5, \<^verbatim>\<open>remove(4)\<close> finds the condition of the claim true for
    slot 0 and its image, slot 2. The table that the merge of the claim would leave
    has one live bucket with the key 2 and local depth 0 in both slots. The program
    leaves no such table: both slots hold the same bucket, the bucket that was to
    survive is the one released, and the decrement of its local depth is a write to
    a released bucket.
  \<^item> Where the two slots hold different buckets the program does what the claim says:
    after the inserts 0, 2, 4 and the removals of 2 and 0, \<^verbatim>\<open>remove(0)\<close> merges slot 1
    into slot 0 and shrinks.
\<close>

theorem remove_has_no_merged_table:
  "construct 0 2 = Inr table_fresh \<and>
   getBucketIndex table_fresh 7 = Inr 0 \<and>
   getImageIndex table_fresh 0 = Inl NegativeShift \<and>
   remove 7 table_fresh = Inl NegativeShift \<and>
   session 8 [Insert 1, Insert 2, Insert 3, Insert 4, Insert 5] = Inr table_1_5 \<and>
   getBucketIndex table_1_5 4 = Inr 0 \<and>
   image_slot table_1_5 0 = 2 \<and>
   underfull (erased 4 0 table_1_5) 0 \<and> underfull (erased 4 0 table_1_5) 2 \<and>
   slot table_1_5 0 = Inr 1 \<and> slot table_1_5 2 = Inr 1 \<and>
   merged 0 2 (erased 4 0 table_1_5) = table_1_5_merged \<and>
   shrunk table_1_5_merged = table_1_5_merged \<and>
   remove 4 table_1_5 = Inl UseAfterFree \<and>
   session 8 [Insert 0, Insert 2, Insert 4, Remove 2, Remove 0] = Inr table_only_4 \<and>
   getBucketIndex table_only_4 0 = Inr 0 \<and>
   image_slot table_only_4 0 = 1 \<and>
   underfull (erased 0 0 table_only_4) 0 \<and> underfull (erased 0 0 table_only_4) 1 \<and>
   slot table_only_4 0 = Inr 1 \<and> slot table_only_4 1 = Inr 2 \<and>
   remove 0 table_only_4 = Inr (shrunk (merged 0 1 (erased 0 0 table_only_4))) \<and>
   shrunk (merged 0 1 (erased 0 0 table_only_4)) = table_only_4_shrunk"
  by code_simp

section \<open>Facts about the operations\<close>

subsection \<open>Outcomes, shifts and \<^verbatim>\<open>extend\<close>\<close>

lemma andThen_Inr [simp]: "andThen (Inr x) f = f x"
  by (simp add: andThen_def)

lemma andThen_Inl [simp]: "andThen (Inl e) f = Inl e"
  by (simp add: andThen_def)

lemma andThen_eq_Inr: "andThen m f = Inr y \<longleftrightarrow> (\<exists>x. m = Inr x \<and> f x = Inr y)"
  by (cases m) simp_all

lemma shl1_Inr: "0 \<le> d \<Longrightarrow> d < 31 \<Longrightarrow> shl1 d = Inr (2 ^ nat d)"
  by (simp add: shl1_def)

lemma shl1_eq_Inr: "shl1 d = Inr m \<longleftrightarrow> 0 \<le> d \<and> d < 31 \<and> m = 2 ^ nat d"
  by (auto simp: shl1_def)

lemma crem_nonneg: "0 \<le> a \<Longrightarrow> crem a m = a mod m"
  by (simp add: crem_def)

lemma extend_loop_step:
  assumes "length bs = m" "k < m" "m = 2 ^ nat g" "0 \<le> g" "g < 31"
  shows "extend_loop g (m + k) (Inr (s\<lparr>buckets := bs @ take k bs @ replicate (m - k) 0\<rparr>))
       = Inr (s\<lparr>buckets := bs @ take (Suc k) bs @ replicate (m - Suc k) 0\<rparr>)"
proof -
  have pw: "(2::int) ^ nat g = int m"
    using assms by simp
  have md: "int k mod int m = int k"
    using assms(2) by simp
  have idx: "getBucketIndex2 (int m + int k) g = Inr (int k)"
    using assms(4,5) by (simp add: getBucketIndex2_def shl1_Inr crem_nonneg pw md)
  have rd: "slot (s\<lparr>buckets := bs @ take k bs @ replicate (m - k) 0\<rparr>) (int k) = Inr (bs ! k)"
    using assms(1,2) by (simp add: slot_def nth_append)
  have rep: "replicate (m - k) (0::nat) = 0 # replicate (m - Suc k) 0"
    using assms(2) by (metis Suc_diff_Suc replicate_Suc)
  have upd: "(bs @ take k bs @ replicate (m - k) 0)[m + k := bs ! k]
       = bs @ take (Suc k) bs @ replicate (m - Suc k) 0"
    using assms(1,2) by (simp add: list_update_append rep take_Suc_conv_app_nth)
  have nt: "nat (int m + int k) = m + k"
    by linarith
  show ?thesis
    using assms(1,2) by (simp add: extend_loop_def idx rd set_slot_def upd nt)
qed

lemma extend_loop_fold:
  assumes "length bs = m" "m = 2 ^ nat g" "0 \<le> g" "g < 31"
  shows "k \<le> m \<Longrightarrow> fold (extend_loop g) [m ..< m + k] (Inr (s\<lparr>buckets := bs @ replicate m 0\<rparr>))
       = Inr (s\<lparr>buckets := bs @ take k bs @ replicate (m - k) 0\<rparr>)"
proof (induction k)
  case 0
  then show ?case by simp
next
  case (Suc k)
  then have "k < m" "k \<le> m" by simp_all
  then show ?case
    using Suc.IH extend_loop_step [OF assms(1) \<open>k < m\<close> assms(2,3,4), of s]
    by simp
qed

lemma extend_eq:
  assumes len: "length (buckets s) = 2 ^ nat (globalDepth s)"
    and g: "0 \<le> globalDepth s" "globalDepth s < 30"
  shows "extend s = Inr (extended s)"
proof -
  let ?m = "(2::nat) ^ nat (globalDepth s)"
  have p: "(2::int) ^ nat (globalDepth s + 1) = 2 * 2 ^ nat (globalDepth s)"
    using g by (simp add: nat_add_distrib)
  have n1: "nat (2 * 2 ^ nat (globalDepth s)) = ?m + ?m"
    by (simp add: nat_mult_distrib nat_power_eq)
  have rs: "resize (2 ^ nat (globalDepth s + 1)) (s\<lparr>globalDepth := globalDepth s + 1\<rparr>)
      = s\<lparr>globalDepth := globalDepth s + 1, buckets := buckets s @ replicate ?m 0\<rparr>"
    using len by (simp add: resize_def p n1)
  have st: "nat (2 ^ nat (globalDepth s)) = ?m"
    by (simp add: nat_power_eq)
  have "fold (extend_loop (globalDepth s)) [?m ..< ?m + ?m]
          (Inr ((s\<lparr>globalDepth := globalDepth s + 1\<rparr>)\<lparr>buckets := buckets s @ replicate ?m 0\<rparr>))
        = Inr ((s\<lparr>globalDepth := globalDepth s + 1\<rparr>)\<lparr>buckets := buckets s @ take ?m (buckets s) @ replicate (?m - ?m) 0\<rparr>)"
    using len g by (intro extend_loop_fold) simp_all
  then show ?thesis
    using len g by (simp add: extend_def Let_def shl1_Inr rs st extended_def)
qed

lemma extend_too_deep: "30 \<le> globalDepth s \<Longrightarrow> extend s = Inl ShiftTooLarge"
  by (simp add: extend_def Let_def shl1_def)

lemma deref_live:
  "0 < p \<Longrightarrow> p < length (cells s) \<Longrightarrow> cells s ! p \<noteq> None \<Longrightarrow> deref s p = Inr (bucket_at s p)"
  by (auto simp: deref_def bucket_at_def)

lemma deref_eq_Inr:
  "deref s p = Inr b \<longleftrightarrow> 0 < p \<and> p < length (cells s) \<and> cells s ! p = Some b"
  by (auto simp: deref_def split: option.splits)

lemma wf_deref: "wf s \<Longrightarrow> p \<in> set (buckets s) \<Longrightarrow> deref s p = Inr (bucket_at s p)"
  by (simp add: wf_def deref_live)

lemma slot_eq_Inr:
  "slot s i = Inr p \<longleftrightarrow> 0 \<le> i \<and> nat i < length (buckets s) \<and> p = buckets s ! nat i"
  by (auto simp: slot_def)

lemma slot_in_range: "0 \<le> i \<Longrightarrow> nat i < length (buckets s) \<Longrightarrow> slot s i = Inr (buckets s ! nat i)"
  by (simp add: slot_def)

lemma reinsert_Inl [simp]: "reinsert f x (Inl e) = Inl e"
  by (simp add: reinsert_def)

lemma fold_reinsert_Inl [simp]: "fold (reinsert f) xs (Inl e) = Inl e"
  by (induction xs) (simp_all add: reinsert_def)

lemma splitImage_eq:
  assumes wf: "wf s" and g: "1 \<le> globalDepth s" and i: "0 \<le> i" "i < 2 ^ nat (globalDepth s)"
  shows "splitImage f i s =
         fold (reinsert f) (data (bucket_at s (buckets s ! nat (split_source s i))))
              (Inr (split_state i s))"
proof -
  let ?h = "(2::int) ^ nat (globalDepth s - 1)"
  have suc: "nat (globalDepth s) = Suc (nat (globalDepth s - 1))"
    using g by linarith
  have len: "int (length (buckets s)) = 2 * ?h"
    using wf by (simp add: wf_def suc)
  have sh: "shl1 (globalDepth s - 1) = Inr ?h"
    using wf g by (simp add: shl1_def wf_def)
  have hpos: "0 < ?h" by simp
  let ?t = "split_target s i" and ?d = "split_source s i"
  have t: "0 \<le> ?t" "?t < int (length (buckets s))" and d: "0 \<le> ?d" "?d < int (length (buckets s))"
    and td: "nat ?t \<noteq> nat ?d"
    using i len wf by (auto simp: split_target_def split_source_def wf_def)
  let ?p = "buckets s ! nat ?d"
  have pin: "?p \<in> set (buckets s)" using d by simp
  then have p: "0 < ?p" "?p < length (cells s)" "cells s ! ?p \<noteq> None"
    using wf by (auto simp: wf_def)
  let ?b = "bucket_at s ?p"
  have cb: "cells s ! ?p = Some ?b"
    using p by (auto simp: bucket_at_def)
  have tgt: "(if i < ?h then int (length (buckets s)) - (?h - i) else i) = ?t"
    using len by (simp add: split_target_def)
  have src: "(if i < ?h then i else i - ?h) = ?d"
    by (simp add: split_source_def)
  let ?nb = "\<lparr>bsize = bucketSize s, localDepth = globalDepth s, data = []\<rparr>"
  let ?s1 = "s\<lparr>cells := cells s @ [Some ?nb]\<rparr>"
  let ?s2 = "?s1\<lparr>buckets := (buckets s)[nat ?t := length (cells s)]\<rparr>"
  have nb: "new_bucket (bucketSize s) (globalDepth s) s = (length (cells s), ?s1)"
    by (simp add: new_bucket_def)
  have ss: "set_slot ?t (length (cells s)) ?s1 = Inr ?s2"
    using t by (simp add: set_slot_def)
  have sl: "slot ?s2 ?d = Inr ?p"
    using d td by (simp add: slot_def)
  have dr: "deref ?s2 ?p = Inr ?b"
    using p cb by (simp add: deref_def nth_append)
  let ?s3 = "store ?p (?b\<lparr>data := []\<rparr>) ?s2"
  have dr3: "deref ?s3 ?p = Inr (?b\<lparr>data := []\<rparr>)"
    using p by (simp add: deref_def store_def)
  have fin: "store ?p (?b\<lparr>data := [], localDepth := localDepth ?b + 1\<rparr>) ?s3 = split_state i s"
    by (simp add: store_def split_state_def Let_def)
  show ?thesis
    unfolding splitImage_def sh andThen_Inr Let_def tgt src nb prod.case ss sl dr dr3
    using fin by simp
qed

subsection \<open>Stores, one step of \<^verbatim>\<open>add\<close>\<close>

lemma bucket_insert_fields [simp]:
  "localDepth (snd (bucket_insert k b)) = localDepth b"
  "bsize (snd (bucket_insert k b)) = bsize b"
  by (simp_all add: bucket_insert_def Let_def)

lemma store_fields [simp]:
  "globalDepth (store p b s) = globalDepth s"
  "bucketSize (store p b s) = bucketSize s"
  "buckets (store p b s) = buckets s"
  "length (cells (store p b s)) = length (cells s)"
  by (simp_all add: store_def)

lemma bucket_at_store:
  "p < length (cells s) \<Longrightarrow> bucket_at (store p b s) q = (if q = p then b else bucket_at s q)"
  by (simp add: bucket_at_def store_def)

lemma wf_store: "wf s \<Longrightarrow> wf (store p b s)"
  by (cases "p < length (cells s)") (auto simp: wf_def store_def nth_list_update)

lemma extended_fields [simp]:
  "globalDepth (extended s) = globalDepth s + 1"
  "bucketSize (extended s) = bucketSize s"
  "buckets (extended s) = buckets s @ buckets s"
  "cells (extended s) = cells s"
  by (simp_all add: extended_def)

lemma bucket_at_extended [simp]: "bucket_at (extended s) p = bucket_at s p"
  by (simp add: bucket_at_def)

lemma wf_extended: "wf s \<Longrightarrow> globalDepth s < 30 \<Longrightarrow> wf (extended s)"
  by (auto simp: wf_def nat_add_distrib)

lemma add_Suc_unfold:
  assumes "getBucketIndex s key = Inr i" "slot s i = Inr p" "deref s p = Inr b"
  shows "add (Suc n) key s =
     (if fst (bucket_insert key b) = 2 then
        andThen (if localDepth b = globalDepth s then extend (store p (snd (bucket_insert key b)) s)
                 else Inr (store p (snd (bucket_insert key b)) s)) (\<lambda>s2.
        andThen (splitImage (add n) i s2) (\<lambda>s3. Inr (i, s3)))
      else Inr (i, store p (snd (bucket_insert key b)) s))"
  using assms by (simp add: Let_def split_beta)


subsection \<open>The table between the halves of \<^verbatim>\<open>splitImage\<close>\<close>

lemma split_state_fields [simp]:
  "globalDepth (split_state i s) = globalDepth s"
  "bucketSize (split_state i s) = bucketSize s"
  "length (cells (split_state i s)) = Suc (length (cells s))"
  "length (buckets (split_state i s)) = length (buckets s)"
  by (simp_all add: split_state_def Let_def)

lemma split_state_buckets:
  "buckets (split_state i s) = (buckets s)[nat (split_target s i) := length (cells s)]"
  by (simp add: split_state_def Let_def)

lemma split_indices:
  assumes "wf s" "1 \<le> globalDepth s" "0 \<le> i" "i < 2 ^ nat (globalDepth s)"
  shows "0 \<le> split_target s i" "nat (split_target s i) < length (buckets s)"
        "0 \<le> split_source s i" "nat (split_source s i) < length (buckets s)"
        "2 ^ nat (globalDepth s - 1) \<le> split_target s i"
        "split_source s i < 2 ^ nat (globalDepth s - 1)"
        "split_target s i = split_source s i + 2 ^ nat (globalDepth s - 1)"
proof -
  have suc: "nat (globalDepth s) = Suc (nat (globalDepth s - 1))"
    using assms(2) by linarith
  have len: "int (length (buckets s)) = 2 * 2 ^ nat (globalDepth s - 1)"
    using assms(1) by (simp add: wf_def suc)
  have i2: "i < 2 * 2 ^ nat (globalDepth s - 1)"
    using assms(4) by (simp add: suc)
  show "0 \<le> split_target s i" "nat (split_target s i) < length (buckets s)"
        "0 \<le> split_source s i" "nat (split_source s i) < length (buckets s)"
        "2 ^ nat (globalDepth s - 1) \<le> split_target s i"
        "split_source s i < 2 ^ nat (globalDepth s - 1)"
        "split_target s i = split_source s i + 2 ^ nat (globalDepth s - 1)"
    using assms(3) i2 len by (auto simp: split_target_def split_source_def)
qed

lemma bucket_at_split_state:
  assumes "wf s" "1 \<le> globalDepth s" "0 \<le> i" "i < 2 ^ nat (globalDepth s)"
    and "q \<le> length (cells s)"
  shows "bucket_at (split_state i s) q =
     (if q = buckets s ! nat (split_source s i)
      then (bucket_at s q)\<lparr>data := [], localDepth := localDepth (bucket_at s q) + 1\<rparr>
      else if q = length (cells s)
      then \<lparr>bsize = bucketSize s, localDepth = globalDepth s, data = []\<rparr>
      else bucket_at s q)"
proof -
  have "buckets s ! nat (split_source s i) \<in> set (buckets s)"
    using split_indices(4) [OF assms(1-4)] by simp
  then have "buckets s ! nat (split_source s i) < length (cells s)"
    using assms(1) by (auto simp: wf_def)
  then show ?thesis
    using assms(5) by (auto simp: split_state_def Let_def bucket_at_def nth_append)
qed

lemma wf_split_state:
  assumes "wf s" "1 \<le> globalDepth s" "0 \<le> i" "i < 2 ^ nat (globalDepth s)"
  shows "wf (split_state i s)"
proof -
  let ?p = "buckets s ! nat (split_source s i)"
  have pin: "?p \<in> set (buckets s)"
    using split_indices(4) [OF assms] by simp
  then have p: "0 < ?p" "?p < length (cells s)"
    using assms(1) by (auto simp: wf_def)
  have live: "0 < q \<and> q < Suc (length (cells s)) \<and> cells (split_state i s) ! q \<noteq> None"
    if "q \<in> set (buckets s) \<or> q = length (cells s)" for q
    using that p assms(1) by (auto simp: wf_def split_state_def Let_def nth_append nth_list_update)
  have sub: "set (buckets (split_state i s)) \<subseteq> insert (length (cells s)) (set (buckets s))"
    unfolding split_state_buckets by (rule set_update_subset_insert)
  have "0 < q \<and> q < length (cells (split_state i s)) \<and> cells (split_state i s) ! q \<noteq> None"
    if "q \<in> set (buckets (split_state i s))" for q
    using live [of q] sub that by auto
  moreover have "length (buckets (split_state i s)) = 2 ^ nat (globalDepth (split_state i s))"
    using assms(1) by (simp add: wf_def)
  moreover have "0 \<le> globalDepth (split_state i s)" "globalDepth (split_state i s) < 31"
    using assms(1) by (simp_all add: wf_def)
  ultimately show ?thesis
    unfolding wf_def by blast
qed

lemma wf_length: "wf s \<Longrightarrow> int (length (buckets s)) = 2 ^ nat (globalDepth s)"
  by (simp add: wf_def)

lemma wf_index:
  assumes "wf s" "0 \<le> x" "x < 2 ^ nat (globalDepth s)"
  shows "nat x < length (buckets s)" "buckets s ! nat x \<in> set (buckets s)"
proof -
  show "nat x < length (buckets s)"
    using wf_length [OF assms(1)] assms(2,3) by linarith
  then show "buckets s ! nat x \<in> set (buckets s)"
    by simp
qed

lemma wf_live:
  assumes "wf s" "p \<in> set (buckets s)"
  shows "0 < p" "p < length (cells s)" "cells s ! p = Some (bucket_at s p)"
  using assms by (auto simp: wf_def bucket_at_def)

lemma low_index:
  assumes "wf s" "0 \<le> x" "x < 2 ^ nat (globalDepth s)"
  shows "getBucketIndex s x = Inr x" "slot s x = Inr (buckets s ! nat x)"
proof -
  have "shl1 (globalDepth s) = Inr (2 ^ nat (globalDepth s))"
    using assms(1) by (simp add: wf_def shl1_def)
  then show "getBucketIndex s x = Inr x"
    using assms(2,3) by (simp add: getBucketIndex_def getBucketIndex2_def crem_def)
  have "x < int (length (buckets s))"
    using assms(1,3) by (simp add: wf_def)
  then show "slot s x = Inr (buckets s ! nat x)"
    using assms(2) by (simp add: slot_def)
qed

lemma reinsert_Inr:
  assumes "wf s" "0 \<le> x" "x < 2 ^ nat (globalDepth s)"
  shows "reinsert f x (Inr s) = andThen (f x s) (\<lambda>r. Inr (snd r))"
  using low_index [OF assms] by (simp add: reinsert_def)

lemma add_plain:
  assumes "wf s" "0 \<le> x" "x < 2 ^ nat (globalDepth s)"
    and "fst (bucket_insert x (bucket_at s (buckets s ! nat x))) \<noteq> 2"
  shows "add (Suc n) x s =
         Inr (x, store (buckets s ! nat x) (snd (bucket_insert x (bucket_at s (buckets s ! nat x)))) s)"
proof -
  have "nat x < length (buckets s)"
    using assms(1,2,3) by (simp add: wf_def nat_less_iff)
  then have "deref s (buckets s ! nat x) = Inr (bucket_at s (buckets s ! nat x))"
    using assms(1) by (intro wf_deref) simp_all
  then show ?thesis
    using assms(4) by (simp add: add_Suc_unfold [OF low_index [OF assms(1-3)]] del: add.simps)
qed

section \<open>Extending the directory on overflow\<close>




section \<open>An insert that does not return\<close>

lemma pow_ge_16: "4 \<le> g \<Longrightarrow> (16::int) \<le> 2 ^ nat g"
proof -
  assume "4 \<le> g"
  then have "(2::int) ^ 4 \<le> 2 ^ nat g"
    by (intro power_increasing) simp_all
  then show ?thesis by simp
qed

lemma pow_half_ge_8: "4 \<le> g \<Longrightarrow> (8::int) \<le> 2 ^ nat (g - 1)"
proof -
  assume "4 \<le> g"
  then have "(2::int) ^ 3 \<le> 2 ^ nat (g - 1)"
    by (intro power_increasing) simp_all
  then show ?thesis by simp
qed

text \<open>The second half of \<open>splitImage\<close> on a table whose slots 0, 2 and 4 hold the bucket
  that overflowed with the keys 0, 2, 4.\<close>

lemma looping_split:
  assumes IH: "\<And>t. looping t \<Longrightarrow> add n 4 t = Inl OutOfFuel \<or> add n 4 t = Inl ShiftTooLarge"
    and wf: "wf s" and g: "4 \<le> globalDepth s" and c: "bucketSize s = 2"
    and sl: "buckets s ! 0 = buckets s ! 4" "buckets s ! 2 = buckets s ! 4"
    and b: "bsize (bucket_at s (buckets s ! 4)) = 2" "data (bucket_at s (buckets s ! 4)) = [0, 2, 4]"
  shows "splitImage (add n) 4 s = Inl OutOfFuel \<or> splitImage (add n) 4 s = Inl ShiftTooLarge"
proof -
  let ?p = "buckets s ! 4"
  let ?s4 = "split_state 4 s"
  have g1: "1 \<le> globalDepth s" using g by simp
  have big: "(16::int) \<le> 2 ^ nat (globalDepth s)" and half: "(8::int) \<le> 2 ^ nat (globalDepth s - 1)"
    using g by (rule pow_ge_16, rule pow_half_ge_8)
  have i4: "(0::int) \<le> 4" "(4::int) < 2 ^ nat (globalDepth s)"
    using big by simp_all
  have src: "split_source s 4 = 4" and tgt: "split_target s 4 = 4 + 2 ^ nat (globalDepth s - 1)"
    using half by (simp_all add: split_source_def split_target_def)
  have eq: "splitImage (add n) 4 s = fold (reinsert (add n)) [0, 2, 4] (Inr ?s4)"
    using splitImage_eq [OF wf g1 i4, of "add n"] b by (simp add: src)
  have wf4: "wf ?s4" by (rule wf_split_state [OF wf g1 i4])
  have nt: "nat (4 + 2 ^ nat (globalDepth s - 1)) \<noteq> 0" "nat (4 + 2 ^ nat (globalDepth s - 1)) \<noteq> 2"
    "nat (4 + 2 ^ nat (globalDepth s - 1)) \<noteq> 4"
    using half by linarith+
  have bk4: "buckets ?s4 ! 0 = ?p" "buckets ?s4 ! 2 = ?p" "buckets ?s4 ! 4 = ?p"
    using sl nt by (simp_all add: tgt split_state_buckets)
  have pin: "?p \<in> set (buckets s)"
    using wf_index(2) [OF wf i4] by simp
  have plt: "?p < length (cells s)"
    using wf pin by (auto simp: wf_def)
  have b4: "bucket_at ?s4 ?p = (bucket_at s ?p)\<lparr>data := [], localDepth := localDepth (bucket_at s ?p) + 1\<rparr>"
    using bucket_at_split_state [OF wf g1 i4, of ?p] plt by (simp add: src)
  show ?thesis
  proof (cases n)
    case 0
    have "reinsert (add 0) 0 (Inr ?s4) = Inl OutOfFuel"
      using reinsert_Inr [OF wf4, of 0 "add 0"] big by simp
    moreover from eq have "splitImage (add n) 4 s = fold (reinsert (add 0)) [0, 2, 4] (Inr ?s4)"
      unfolding 0 .
    ultimately have "splitImage (add n) 4 s = Inl OutOfFuel"
      by simp
    then show ?thesis ..
  next
    case (Suc m)
    let ?b5 = "(bucket_at s ?p)\<lparr>data := [0], localDepth := localDepth (bucket_at s ?p) + 1\<rparr>"
    let ?s5 = "store ?p ?b5 ?s4"
    let ?b6 = "(bucket_at s ?p)\<lparr>data := [0, 2], localDepth := localDepth (bucket_at s ?p) + 1\<rparr>"
    let ?s6 = "store ?p ?b6 ?s5"
    have ts: "to_size_t 2 = 2" by (simp add: to_size_t_def)
    have ins0: "bucket_insert 0 (bucket_at ?s4 ?p) = (0, ?b5)"
      using b by (simp add: b4 bucket_insert_def ts)
    have a0: "add (Suc m) 0 ?s4 = Inr (0, ?s5)"
      using add_plain [OF wf4, of 0 m] big by (simp add: bk4 ins0 del: add.simps)
    have wf5: "wf ?s5" by (rule wf_store [OF wf4])
    have b5: "bucket_at ?s5 ?p = ?b5"
      using plt by (simp add: bucket_at_store)
    have ins2: "bucket_insert 2 (bucket_at ?s5 ?p) = (0, ?b6)"
      using b by (simp add: b5 bucket_insert_def ts)
    have a2: "add (Suc m) 2 ?s5 = Inr (2, ?s6)"
      using add_plain [OF wf5, of 2 m] big bk4 by (simp add: ins2 del: add.simps)
    have wf6: "wf ?s6" by (rule wf_store [OF wf5])
    have b6: "bucket_at ?s6 ?p = ?b6"
      using plt by (simp add: bucket_at_store)
    have "looping ?s6"
      unfolding looping_def using wf6 g c bk4 b by (simp add: b6)
    then have last: "add (Suc m) 4 ?s6 = Inl OutOfFuel \<or> add (Suc m) 4 ?s6 = Inl ShiftTooLarge"
      using IH Suc by simp
    have r0: "reinsert (add (Suc m)) 0 (Inr ?s4) = Inr ?s5"
      using reinsert_Inr [OF wf4, of 0 "add (Suc m)"] big a0 by (simp del: add.simps)
    have r2: "reinsert (add (Suc m)) 2 (Inr ?s5) = Inr ?s6"
      using reinsert_Inr [OF wf5, of 2 "add (Suc m)"] big a2 by (simp del: add.simps)
    have r4: "reinsert (add (Suc m)) 4 (Inr ?s6) = andThen (add (Suc m) 4 ?s6) (\<lambda>r. Inr (snd r))"
      using reinsert_Inr [OF wf6, of 4 "add (Suc m)"] big by (simp del: add.simps)
    have "fold (reinsert (add (Suc m))) [0, 2, 4] (Inr ?s4) = andThen (add (Suc m) 4 ?s6) (\<lambda>r. Inr (snd r))"
      by (simp add: r0 r2 r4 del: add.simps)
    moreover from eq have "splitImage (add n) 4 s = fold (reinsert (add (Suc m))) [0, 2, 4] (Inr ?s4)"
      unfolding Suc .
    ultimately have "splitImage (add n) 4 s = andThen (add (Suc m) 4 ?s6) (\<lambda>r. Inr (snd r))"
      by (simp del: add.simps)
    then show ?thesis
      using last by auto
  qed
qed

lemma looping_add:
  "looping s \<Longrightarrow> add n 4 s = Inl OutOfFuel \<or> add n 4 s = Inl ShiftTooLarge"
proof (induction n arbitrary: s)
  case 0
  then show ?case by simp
next
  case (Suc n)
  let ?p = "buckets s ! 4"
  let ?b = "bucket_at s ?p"
  let ?b' = "?b\<lparr>data := [0, 2, 4]\<rparr>"
  let ?s1 = "store ?p ?b' s"
  from Suc.prems have wf: "wf s" and g: "4 \<le> globalDepth s" and c: "bucketSize s = 2"
    and sl: "buckets s ! 0 = ?p" "buckets s ! 2 = ?p"
    and b: "bsize ?b = 2" "data ?b = [0, 2]"
    by (simp_all add: looping_def)
  have big: "(16::int) \<le> 2 ^ nat (globalDepth s)"
    using g by (rule pow_ge_16)
  have i4: "(0::int) \<le> 4" "(4::int) < 2 ^ nat (globalDepth s)"
    using big by simp_all
  have pin: "?p \<in> set (buckets s)"
    using wf_index(2) [OF wf i4] by simp
  have plt: "?p < length (cells s)"
    using wf pin by (auto simp: wf_def)
  have dr: "deref s ?p = Inr ?b"
    using wf pin by (rule wf_deref)
  have ins: "bucket_insert 4 ?b = (2, ?b')"
    using b by (simp add: bucket_insert_def to_size_t_def)
  have unf: "add (Suc n) 4 s =
      andThen (if localDepth ?b = globalDepth s then extend ?s1 else Inr ?s1) (\<lambda>s2.
      andThen (splitImage (add n) 4 s2) (\<lambda>s3. Inr (4, s3)))"
    using add_Suc_unfold [OF low_index(1) [OF wf i4] _ dr, of n] low_index(2) [OF wf i4]
    by (simp add: ins del: add.simps)
  have wf1: "wf ?s1" by (rule wf_store [OF wf])
  have b1: "bucket_at ?s1 ?p = ?b'"
    using plt by (simp add: bucket_at_store)
  have split1: "splitImage (add n) 4 ?s1 = Inl OutOfFuel \<or> splitImage (add n) 4 ?s1 = Inl ShiftTooLarge"
    using looping_split [OF Suc.IH wf1] g c sl b by (simp add: b1)
  show ?case
  proof (cases "localDepth ?b = globalDepth s")
    case False
    then show ?thesis
      using split1 by (auto simp: unf simp del: add.simps)
  next
    case True
    show ?thesis
    proof (cases "globalDepth s < 30")
      case False
      then have "extend ?s1 = Inl ShiftTooLarge"
        by (intro extend_too_deep) simp
      then show ?thesis
        using True by (simp add: unf del: add.simps)
    next
      case deep: True
      have ex: "extend ?s1 = Inr (extended ?s1)"
        using wf1 deep by (intro extend_eq) (simp_all add: wf_def)
      have wf2: "wf (extended ?s1)"
        using wf1 deep by (intro wf_extended) simp_all
      have len: "4 < length (buckets s)"
        using wf_index(1) [OF wf i4] by simp
      have e: "buckets (extended ?s1) ! 0 = buckets (extended ?s1) ! 4"
        "buckets (extended ?s1) ! 2 = buckets (extended ?s1) ! 4"
        "buckets (extended ?s1) ! 4 = ?p"
        using sl len by (auto simp: nth_append)
      have e': "(buckets s @ buckets s) ! 4 = ?p"
        using len by (auto simp: nth_append)
      have "splitImage (add n) 4 (extended ?s1) = Inl OutOfFuel \<or>
            splitImage (add n) 4 (extended ?s1) = Inl ShiftTooLarge"
        using g c b by (intro looping_split [OF Suc.IH wf2 _ _ e(1,2)]) (simp_all add: e' b1)
      then show ?thesis
        using True ex by (auto simp: unf simp del: add.simps)
    qed
  qed
qed


text \<open>
  Claim C10 (every insert terminates) does not hold of the program. In the table of
  \<^verbatim>\<open>main\<close>, after the inserts 0, 1, 2, 9, 17 the global depth is 4 and the eight even
  slots hold one bucket, with the keys 0 and 2. \<^verbatim>\<open>insert(4)\<close> overflows it. Each
  \<^verbatim>\<open>splitImage\<close> repoints one slot above the lower half, which none of the keys 0, 2, 4
  hashes to, so the three keys go back into the old bucket, which overflows again on
  the key 4, now inside the nested call. Once the local depth has reached the global
  depth every round doubles the directory. The call never returns: with any bound \<open>n\<close>
  on the nesting, the model either exhausts the bound or reaches the depth at which
  \<^verbatim>\<open>1 << globalDepth\<close> is no longer defined.
\<close>

theorem insert_does_not_terminate:
  "session 8 [Insert 0, Insert 1, Insert 2, Insert 9, Insert 17] = Inr table_before_4 \<and>
   (\<forall>n. add n 4 table_before_4 = Inl OutOfFuel \<or> add n 4 table_before_4 = Inl ShiftTooLarge)"
proof -
  have "session 8 [Insert 0, Insert 1, Insert 2, Insert 9, Insert 17] = Inr table_before_4"
    by code_simp
  moreover have "looping table_before_4"
    by (simp add: looping_def wf_def table_before_4_def bucket_at_def)
  ultimately show ?thesis
    using looping_add by blast
qed

section \<open>The invariant of the reachable tables\<close>

subsection \<open>Pointers that occur once in their level\<close>

lemma level_below:
  assumes "2 ^ Suc j \<le> (2::nat) ^ Suc G" "j \<noteq> G"
  shows "2 ^ Suc j \<le> (2::nat) ^ G"
proof -
  have "Suc j \<le> Suc G"
    using assms(1) by (simp only: power_increasing_iff [of 2] one_less_numeral_iff semiring_norm)
  then have "Suc j \<le> G" using assms(2) by simp
  then show ?thesis by (intro power_increasing) simp_all
qed

lemma private_upper_append:
  assumes pu: "private_upper bs" and len: "length bs = 2 ^ G"
  shows "private_upper (bs @ bs)"
  unfolding private_upper_def
proof (intro allI impI)
  fix j l i
  assume lv: "2 ^ Suc j \<le> length (bs @ bs)" and l: "l < 2 ^ j"
    and ne: "(bs @ bs) ! l \<noteq> (bs @ bs) ! (l + 2 ^ j)"
    and i: "i < 2 ^ Suc j" and eq: "(bs @ bs) ! i = (bs @ bs) ! (l + 2 ^ j)"
  have lv': "2 ^ Suc j \<le> (2::nat) ^ Suc G" using lv len by (simp add: mult_2)
  show "i = l + 2 ^ j"
  proof (cases "j = G")
    case True
    then have "(bs @ bs) ! (l + 2 ^ j) = bs ! l" "(bs @ bs) ! l = bs ! l"
      using l len by (simp_all add: nth_append)
    then show ?thesis using ne by simp
  next
    case False
    then have b: "2 ^ Suc j \<le> length bs"
      using level_below [OF lv'] len by simp
    then have "l + 2 ^ j < length bs" "l < length bs" "i < length bs"
      using l i by simp_all
    then have "(bs @ bs) ! (l + 2 ^ j) = bs ! (l + 2 ^ j)" "(bs @ bs) ! l = bs ! l"
      "(bs @ bs) ! i = bs ! i"
      by (simp_all add: nth_append)
    then show ?thesis
      using pu b l ne i eq unfolding private_upper_def by metis
  qed
qed

lemma private_upper_take:
  assumes pu: "private_upper bs"
  shows "private_upper (take n bs)"
  unfolding private_upper_def
proof (intro allI impI)
  fix j l i
  assume lv: "2 ^ Suc j \<le> length (take n bs)" and l: "l < 2 ^ j"
    and ne: "take n bs ! l \<noteq> take n bs ! (l + 2 ^ j)"
    and i: "i < 2 ^ Suc j" and eq: "take n bs ! i = take n bs ! (l + 2 ^ j)"
  have b: "2 ^ Suc j \<le> length bs" "2 ^ Suc j \<le> n"
    using lv by simp_all
  then have "l + 2 ^ j < n" "l < n" "i < n"
    using l i by simp_all
  then have "take n bs ! (l + 2 ^ j) = bs ! (l + 2 ^ j)" "take n bs ! l = bs ! l"
    "take n bs ! i = bs ! i"
    by simp_all
  then show "i = l + 2 ^ j"
    using pu b(1) l ne i eq unfolding private_upper_def by metis
qed

lemma private_upper_fresh:
  assumes pu: "private_upper bs" and len: "length bs = 2 ^ Suc G"
    and u: "2 ^ G \<le> u" "u < 2 ^ Suc G" and f: "f \<notin> set bs"
  shows "private_upper (bs[u := f])"
  unfolding private_upper_def
proof (intro allI impI)
  fix j l i
  assume lv: "2 ^ Suc j \<le> length (bs[u := f])" and l: "l < 2 ^ j"
    and ne: "bs[u := f] ! l \<noteq> bs[u := f] ! (l + 2 ^ j)"
    and i: "i < 2 ^ Suc j" and eq: "bs[u := f] ! i = bs[u := f] ! (l + 2 ^ j)"
  have lv': "2 ^ Suc j \<le> (2::nat) ^ Suc G" and b: "2 ^ Suc j \<le> length bs"
    using lv len by simp_all
  have in_range: "l + 2 ^ j < length bs" "l < length bs" "i < length bs"
    using l i b by simp_all
  show "i = l + 2 ^ j"
  proof (cases "j = G")
    case top: True
    have lu: "l \<noteq> u" using l u top by simp
    show ?thesis
    proof (cases "l + 2 ^ j = u")
      case True
      then have "bs[u := f] ! i = f"
        using eq in_range by simp
      then have "i = u"
        using f in_range by (metis nth_list_update_neq nth_mem)
      then show ?thesis using True by simp
    next
      case False
      have "bs[u := f] ! (l + 2 ^ j) \<noteq> f"
        using False f in_range by (metis nth_list_update_neq nth_mem)
      then have "i \<noteq> u"
        using eq in_range by auto
      then show ?thesis
        using pu b l ne i eq False lu unfolding private_upper_def
        by (metis nth_list_update_neq)
    qed
  next
    case False
    then have "2 ^ Suc j \<le> (2::nat) ^ G"
      using level_below [OF lv'] by simp
    then have "l + 2 ^ j \<noteq> u" "l \<noteq> u" "i \<noteq> u"
      using l i u by simp_all
    then show ?thesis
      using pu b l ne i eq unfolding private_upper_def
      by (metis nth_list_update_neq)
  qed
qed

lemma private_upper_merge:
  assumes pu: "private_upper bs" and len: "length bs = 2 ^ Suc G" and lo: "lo < 2 ^ G"
  shows "private_upper (bs[lo + 2 ^ G := bs ! lo])"
  unfolding private_upper_def
proof (intro allI impI)
  let ?u = "lo + 2 ^ G"
  let ?bs = "bs[?u := bs ! lo]"
  fix j l i
  assume lv: "2 ^ Suc j \<le> length ?bs" and l: "l < 2 ^ j"
    and ne: "?bs ! l \<noteq> ?bs ! (l + 2 ^ j)"
    and i: "i < 2 ^ Suc j" and eq: "?bs ! i = ?bs ! (l + 2 ^ j)"
  have lv': "2 ^ Suc j \<le> (2::nat) ^ Suc G" and b: "2 ^ Suc j \<le> length bs"
    using lv len by simp_all
  have in_range: "l + 2 ^ j < length bs" "l < length bs" "i < length bs"
    using l i b by simp_all
  have in_range_u: "?u < length bs"
    using lo len by simp
  show "i = l + 2 ^ j"
  proof (cases "j = G")
    case top: True
    have lu: "l \<noteq> ?u" using l top by simp
    have ll: "l \<noteq> lo"
      using ne in_range top by (metis nth_list_update_eq nth_list_update_neq)
    then have uu: "l + 2 ^ j \<noteq> ?u" using top by simp
    have ne': "bs ! l \<noteq> bs ! (l + 2 ^ j)"
      using ne lu uu by simp
    show ?thesis
    proof (cases "i = ?u")
      case True
      then have "bs ! lo = bs ! (l + 2 ^ j)"
        using eq uu in_range by simp
      then have "lo = l + 2 ^ j"
        using pu b l ne' lo top unfolding private_upper_def
        by (metis less_Suc_eq power_Suc trans_less_add1 mult_2)
      then show ?thesis using lo top by simp
    next
      case False
      then show ?thesis
        using pu b l ne' i eq uu unfolding private_upper_def
        by (metis nth_list_update_neq)
    qed
  next
    case False
    then have "2 ^ Suc j \<le> (2::nat) ^ G"
      using level_below [OF lv'] by simp
    then have "l + 2 ^ j \<noteq> ?u" "l \<noteq> ?u" "i \<noteq> ?u"
      using l i by simp_all
    then show ?thesis
      using pu b l ne i eq unfolding private_upper_def
      by (metis nth_list_update_neq)
  qed
qed

lemma private_upper_distinct:
  assumes "distinct bs"
  shows "private_upper bs"
  unfolding private_upper_def
proof (intro allI impI)
  fix j l i
  assume "2 ^ Suc j \<le> length bs" "l < 2 ^ j" "i < 2 ^ Suc j" "bs ! i = bs ! (l + 2 ^ j)"
  then have "i < length bs" "l + 2 ^ j < length bs" by simp_all
  then show "i = l + 2 ^ j"
    using assms \<open>bs ! i = bs ! (l + 2 ^ j)\<close> by (simp add: nth_eq_iff_index_eq)
qed

subsection \<open>Writes to a bucket, and \<^verbatim>\<open>extend\<close>\<close>

lemma getBucketIndex_wf: "wf s \<Longrightarrow> getBucketIndex s x = Inr (crem x (2 ^ nat (globalDepth s)))"
  by (simp add: getBucketIndex_def getBucketIndex2_def shl1_def wf_def)

lemma crem_nonneg_cases:
  assumes "0 \<le> crem x m" "0 < m"
  shows "(0 \<le> x \<and> crem x m = x mod m) \<or> (x < 0 \<and> crem x m = 0)"
proof (cases "0 \<le> x")
  case True
  then show ?thesis by (simp add: crem_def)
next
  case False
  then have "crem x m = - ((- x) mod m)" by (simp add: crem_def)
  moreover have "0 \<le> (- x) mod m" using assms(2) by simp
  ultimately show ?thesis using assms(1) False by linarith
qed

lemma leads_to_index:
  assumes "wf s" "leads_to s x p" "getBucketIndex s x = Inr i" "0 \<le> i"
  shows "buckets s ! nat i = p"
proof -
  have i: "i = crem x (2 ^ nat (globalDepth s))"
    using getBucketIndex_wf [OF assms(1), of x] assms(3) by simp
  from crem_nonneg_cases [of x "2 ^ nat (globalDepth s)"] assms(4) i
  have "(0 \<le> x \<and> i = x mod 2 ^ nat (globalDepth s)) \<or> (x < 0 \<and> i = 0)"
    by simp
  then show ?thesis
    using assms(2) by (auto simp: leads_to_def)
qed

lemma index_leads_to:
  assumes "wf s" "getBucketIndex s x = Inr i" "slot s i = Inr p"
  shows "leads_to s x p"
proof -
  have i: "i = crem x (2 ^ nat (globalDepth s))"
    using getBucketIndex_wf [OF assms(1), of x] assms(2) by simp
  have "0 \<le> i" "p = buckets s ! nat i"
    using assms(3) by (simp_all add: slot_eq_Inr)
  moreover from crem_nonneg_cases [of x "2 ^ nat (globalDepth s)"] \<open>0 \<le> i\<close> i
  have "(0 \<le> x \<and> i = x mod 2 ^ nat (globalDepth s)) \<or> (x < 0 \<and> i = 0)"
    by simp
  ultimately show ?thesis
    by (auto simp: leads_to_def)
qed

lemma leads_to_store [simp]: "leads_to (store p b s) x q = leads_to s x q"
  by (simp add: leads_to_def)

lemma invariant_store:
  assumes inv: "invariant s" and pin: "p \<in> set (buckets s)"
    and ld: "localDepth b' = localDepth (bucket_at s p)"
    and sz: "bsize b' = bsize (bucket_at s p)"
    and di: "distinct (data b')" and le: "int (length (data b')) \<le> bucketSize s"
    and ad: "\<forall>x \<in> set (data b'). leads_to s x p"
  shows "invariant (store p b' s)"
proof -
  from inv have wf: "wf s" by (simp add: invariant_def)
  have plt: "p < length (cells s)"
    using wf_live(2) [OF wf pin] .
  have at: "bucket_at (store p b' s) q = (if q = p then b' else bucket_at s q)" for q
    using plt by (simp add: bucket_at_store)
  have "wf (store p b' s)" using wf by (rule wf_store)
  moreover have "private_upper (buckets (store p b' s))"
    using inv by (simp add: invariant_def)
  moreover have "addressed (store p b' s)"
    using inv ad by (auto simp: invariant_def addressed_def at)
  moreover have "within_capacity (store p b' s)"
    using inv pin sz di le by (auto simp: invariant_def within_capacity_def at)
  moreover have "image_depth (store p b' s)"
    using inv ld by (auto simp: invariant_def image_depth_def at)
  moreover have "depth_zero (store p b' s)"
    using inv ld by (auto simp: invariant_def depth_zero_def at)
  ultimately show ?thesis
    by (simp add: invariant_def)
qed

lemma nth_doubled:
  assumes "length bs = m" "n < 2 * m"
  shows "(bs @ bs) ! n = bs ! (n mod m)"
  using assms by (simp add: nth_append mod_if)

lemma leads_to_extended:
  assumes wf: "wf s" and l: "leads_to s x p"
  shows "leads_to (extended s) x p"
proof -
  let ?m = "(2::int) ^ nat (globalDepth s)"
  have len: "int (length (buckets s)) = ?m" using wf by (rule wf_length)
  have g: "nat (globalDepth s + 1) = Suc (nat (globalDepth s))"
    using wf by (simp add: wf_def nat_add_distrib)
  have pos: "0 < length (buckets s)" using len by (simp add: zero_less_iff_neq_zero)
  show ?thesis
    unfolding leads_to_def
  proof (intro conjI impI)
    assume x: "0 \<le> x"
    let ?n = "nat (x mod (2 * ?m))"
    have n: "?n < 2 * length (buckets s)"
    proof -
      have "x mod (2 * ?m) < int (2 * length (buckets s))" "0 \<le> x mod (2 * ?m)"
        using len by simp_all
      then show ?thesis by (simp only: nat_less_iff)
    qed
    have "int (?n mod length (buckets s)) = (x mod (2 * ?m)) mod ?m"
      using len by (simp add: zmod_int)
    also have "\<dots> = x mod ?m"
      by (simp add: mod_mod_cancel)
    finally have "?n mod length (buckets s) = nat (x mod ?m)"
      by linarith
    then have "(buckets s @ buckets s) ! ?n = buckets s ! nat (x mod ?m)"
      using nth_doubled [OF refl n] by simp
    then show "buckets (extended s) ! nat (x mod 2 ^ nat (globalDepth (extended s))) = p"
      using l x by (simp add: leads_to_def g)
  next
    assume "x < 0"
    then show "buckets (extended s) ! 0 = p"
      using l pos by (simp add: leads_to_def nth_append)
  qed
qed

lemma invariant_extended:
  assumes inv: "invariant s" and deep: "globalDepth s < 30"
  shows "invariant (extended s)"
proof -
  from inv have wf: "wf s" by (simp add: invariant_def)
  have len: "length (buckets s) = 2 ^ nat (globalDepth s)"
    using wf by (simp add: wf_def)
  have "wf (extended s)" using wf deep by (rule wf_extended)
  moreover have "private_upper (buckets (extended s))"
    using inv len by (simp add: invariant_def private_upper_append)
  moreover have "addressed (extended s)"
    using inv leads_to_extended [OF wf] by (auto simp: invariant_def addressed_def)
  moreover have "within_capacity (extended s)"
    using inv by (auto simp: invariant_def within_capacity_def)
  moreover have "image_depth (extended s)"
    using wf len by (auto simp: image_depth_def nth_append wf_def)
  moreover have "depth_zero (extended s)"
    using wf by (simp add: depth_zero_def wf_def)
  ultimately show ?thesis
    by (simp add: invariant_def)
qed

subsection \<open>The first half of \<^verbatim>\<open>splitImage\<close>\<close>

lemma bucket_insert_snd:
  "snd (bucket_insert k b) = b\<lparr>data := (if k \<in> set (data b) then data b else insort k (data b))\<rparr>"
  by (simp add: bucket_insert_def Let_def)

lemma bucket_insert_fst:
  "fst (bucket_insert k b) =
     (if k \<in> set (data b) then 1
      else if int (length (data b)) + 1 \<le> to_size_t (bsize b) then 0 else 2)"
  by (simp add: bucket_insert_def Let_def)

lemma split_source_store [simp]: "split_source (store p b s) i = split_source s i"
  by (simp add: split_source_def)

lemma split_target_store [simp]: "split_target (store p b s) i = split_target s i"
  by (simp add: split_target_def)

lemma cells_store: "cells (store p b s) = (cells s)[p := Some b]"
  by (simp add: store_def)

lemma store_overwritten:
  "(store p b s)\<lparr>buckets := X, cells := Y\<rparr> = s\<lparr>buckets := X, cells := Y\<rparr>"
  by (simp add: store_def)

lemma split_state_store:
  assumes "p = buckets s ! nat (split_source s i)" "p < length (cells s)"
  shows "split_state i (store p ((bucket_at s p)\<lparr>data := d\<rparr>) s) = split_state i s"
  using assms
  by (simp add: split_state_def Let_def cells_store store_overwritten bucket_at_def
      list_update_append)

lemma extended_store: "extended (store p b s) = store p b (extended s)"
  by (simp add: extended_def store_def)

text \<open>The directory as natural numbers: half its length, the source and the target of
  a split.\<close>

lemma split_nat:
  assumes "wf s" "1 \<le> globalDepth s" "0 \<le> i" "i < 2 ^ nat (globalDepth s)"
  shows "nat (split_target s i) = nat (split_source s i) + 2 ^ nat (globalDepth s - 1)"
    and "nat (split_source s i) < 2 ^ nat (globalDepth s - 1)"
    and "length (buckets s) = 2 ^ Suc (nat (globalDepth s - 1))"
proof -
  note si = split_indices [OF assms]
  have h: "int (2 ^ nat (globalDepth s - 1)) = 2 ^ nat (globalDepth s - 1)" by simp
  show "nat (split_target s i) = nat (split_source s i) + 2 ^ nat (globalDepth s - 1)"
    using si(3,7) h by (simp add: nat_add_distrib nat_power_eq)
  show "nat (split_source s i) < 2 ^ nat (globalDepth s - 1)"
    using si(3,6) by (simp add: nat_less_iff)
  have "nat (globalDepth s) = Suc (nat (globalDepth s - 1))"
    using assms(2) by linarith
  then show "length (buckets s) = 2 ^ Suc (nat (globalDepth s - 1))"
    using assms(1) by (simp add: wf_def)
qed

lemma invariant_split_state:
  assumes inv: "invariant s" and g: "1 \<le> globalDepth s"
    and i: "0 \<le> i" "i < 2 ^ nat (globalDepth s)"
    and own: "\<And>l. l < 2 ^ nat (globalDepth s - 1) \<Longrightarrow>
                buckets s ! l \<noteq> buckets s ! (l + 2 ^ nat (globalDepth s - 1)) \<Longrightarrow>
                buckets s ! (l + 2 ^ nat (globalDepth s - 1)) \<noteq> buckets s ! nat (split_source s i)"
  shows "invariant (split_state i s)"
proof -
  from inv have wf: "wf s" and pu: "private_upper (buckets s)" and ad: "addressed s"
    and cap: "within_capacity s" and im: "image_depth s"
    by (simp_all add: invariant_def)
  let ?h = "(2::nat) ^ nat (globalDepth s - 1)"
  let ?S = "nat (split_source s i)" and ?T = "nat (split_target s i)"
  let ?B = "buckets s" and ?f = "length (cells s)"
  let ?p = "?B ! ?S"
  let ?s4 = "split_state i s"
  note sn = split_nat [OF wf g i]
  have T: "?T = ?S + ?h" and S: "?S < ?h" and len: "length ?B = 2 ^ Suc (nat (globalDepth s - 1))"
    using sn by simp_all
  have Tlt: "?T < length ?B" and Slt: "?S < length ?B"
    using split_indices(2,4) [OF wf g i] by simp_all
  have pin: "?p \<in> set ?B" using Slt by simp
  have plt: "?p < ?f" using wf_live(2) [OF wf pin] .
  have fresh: "?f \<notin> set ?B"
    using wf by (auto simp: wf_def)
  have B4: "buckets ?s4 = ?B[?T := ?f]" by (rule split_state_buckets)
  have sub: "set (buckets ?s4) \<subseteq> insert ?f (set ?B)"
    unfolding B4 by (rule set_update_subset_insert)
  have at: "bucket_at ?s4 q =
     (if q = ?p then (bucket_at s q)\<lparr>data := [], localDepth := localDepth (bucket_at s q) + 1\<rparr>
      else if q = ?f then \<lparr>bsize = bucketSize s, localDepth = globalDepth s, data = []\<rparr>
      else bucket_at s q)" if "q \<le> ?f" for q
    using bucket_at_split_state [OF wf g i that] .
  have le: "q \<le> ?f" if "q \<in> set (buckets ?s4)" for q
  proof -
    from that sub have "q = ?f \<or> q \<in> set ?B" by auto
    then show ?thesis using wf_live(2) [OF wf, of q] by auto
  qed
  have "wf ?s4" using wf g i by (rule wf_split_state)
  moreover have "private_upper (buckets ?s4)"
    unfolding B4 using pu len T S fresh by (intro private_upper_fresh [where G = "nat (globalDepth s - 1)"]) simp_all
  moreover have "addressed ?s4"
    unfolding addressed_def
  proof (intro ballI)
    fix q x
    assume q: "q \<in> set (buckets ?s4)" and x: "x \<in> set (data (bucket_at ?s4 q))"
    have ne: "q \<noteq> ?p" "q \<noteq> ?f"
      using x at [OF le [OF q]] by (auto split: if_splits)
    then have qB: "q \<in> set ?B" and same: "bucket_at ?s4 q = bucket_at s q"
      using q sub at [OF le [OF q]] by auto
    have lt: "leads_to s x q"
      using ad qB x same by (simp add: addressed_def)
    obtain k where k: "k < length ?B" "?B[?T := ?f] ! k = q"
      using q unfolding B4 by (metis in_set_conv_nth length_list_update)
    then have kT: "k \<noteq> ?T" using ne(2) Tlt by auto
    then have Bk: "?B ! k = q" using k by simp
    have only: "?B ! n = q \<Longrightarrow> n < length ?B \<Longrightarrow> n \<noteq> ?T" for n
    proof
      assume n: "?B ! n = q" "n < length ?B" "n = ?T"
      then have "?B ! ?S \<noteq> ?B ! (?S + ?h)" using ne(1) T by simp
      moreover have "?B ! k = ?B ! (?S + ?h)" using Bk n T by simp
      ultimately have "k = ?S + ?h"
        using pu S k(1) len unfolding private_upper_def by (metis order_refl)
      then show False using kT T by simp
    qed
    show "leads_to ?s4 x q"
      unfolding leads_to_def
    proof (intro conjI impI)
      assume x0: "0 \<le> x"
      let ?n = "nat (x mod 2 ^ nat (globalDepth s))"
      have "?n < length ?B"
        using wf_index(1) [OF wf, of "x mod 2 ^ nat (globalDepth s)"] by simp
      moreover have "?B ! ?n = q" using lt x0 by (simp add: leads_to_def)
      ultimately have "?n \<noteq> ?T" "?B ! ?n = q" using only by simp_all
      then show "buckets ?s4 ! nat (x mod 2 ^ nat (globalDepth ?s4)) = q"
        by (simp add: B4)
    next
      assume "x < 0"
      then have "?B ! 0 = q" using lt by (simp add: leads_to_def)
      moreover have "?T \<noteq> 0" using T by simp
      ultimately show "buckets ?s4 ! 0 = q" by (simp add: B4)
    qed
  qed
  moreover have "within_capacity ?s4"
    unfolding within_capacity_def
  proof (intro conjI ballI)
    show "0 \<le> bucketSize ?s4" "bucketSize ?s4 < 2 ^ 31"
      using cap by (simp_all add: within_capacity_def)
    fix q assume q: "q \<in> set (buckets ?s4)"
    then have "q \<in> set ?B \<or> q = ?f" using sub by auto
    then show "bsize (bucket_at ?s4 q) = bucketSize ?s4" "distinct (data (bucket_at ?s4 q))"
      "int (length (data (bucket_at ?s4 q))) \<le> bucketSize ?s4"
      using cap at [OF le [OF q]] pin plt by (auto simp: within_capacity_def)
  qed
  moreover have "image_depth ?s4"
    unfolding image_depth_def
  proof (intro allI impI)
    fix l
    assume l: "l < 2 ^ nat (globalDepth ?s4 - 1)"
      and ne: "buckets ?s4 ! l \<noteq> buckets ?s4 ! (l + 2 ^ nat (globalDepth ?s4 - 1))"
    have l': "l < ?h" using l by simp
    then have lT: "l \<noteq> ?T" and lh: "l + ?h < length ?B" using T len by simp_all
    show "localDepth (bucket_at ?s4 (buckets ?s4 ! (l + 2 ^ nat (globalDepth ?s4 - 1)))) = globalDepth ?s4"
    proof (cases "l + ?h = ?T")
      case True
      then have "buckets ?s4 ! (l + ?h) = ?f" using Tlt by (simp add: B4)
      then show ?thesis using at [of ?f] plt by simp
    next
      case False
      then have up: "buckets ?s4 ! (l + ?h) = ?B ! (l + ?h)" and lo: "buckets ?s4 ! l = ?B ! l"
        using lT by (simp_all add: B4)
      then have d: "?B ! l \<noteq> ?B ! (l + ?h)" using ne by simp
      then have "localDepth (bucket_at s (?B ! (l + ?h))) = globalDepth s"
        using im g l' by (simp add: image_depth_def)
      moreover have "?B ! (l + ?h) \<noteq> ?p" using own [OF l' d] .
      moreover have "?B ! (l + ?h) \<in> set ?B" using lh by simp
      then have "?B ! (l + ?h) \<le> ?f" "?B ! (l + ?h) \<noteq> ?f"
        using wf by (auto simp: wf_def)
      ultimately show ?thesis
        using at [of "?B ! (l + ?h)"] up by simp
    qed
  qed
  moreover have "depth_zero ?s4"
    using g by (simp add: depth_zero_def)
  ultimately show ?thesis
    by (simp add: invariant_def)
qed

subsection \<open>Keys in their place\<close>

lemma getBucketIndex_store [simp]: "getBucketIndex (store p b s) x = getBucketIndex s x"
  by (simp add: getBucketIndex_def)

lemma slot_store [simp]: "slot (store p b s) i = slot s i"
  by (simp add: slot_def)

lemma deref_store:
  "p < length (cells s) \<Longrightarrow> deref (store p b s) q = (if q = p \<and> 0 < p then Inr b else deref s q)"
  by (auto simp: deref_def store_def)

lemma present_iff:
  "present s x \<longleftrightarrow>
     (\<exists>i p b. getBucketIndex s x = Inr i \<and> slot s i = Inr p \<and> deref s p = Inr b \<and> x \<in> set (data b))"
  by (auto simp: present_def resides_def andThen_def split: sum.splits)

lemma present_wfI:
  assumes "wf s" "getBucketIndex s x = Inr i" "slot s i = Inr p" "x \<in> set (data (bucket_at s p))"
  shows "present s x"
proof -
  have "p \<in> set (buckets s)" using assms(3) by (auto simp: slot_eq_Inr)
  then have "deref s p = Inr (bucket_at s p)" using assms(1) by (intro wf_deref)
  then show ?thesis using assms unfolding present_iff by blast
qed

lemma present_wfD:
  assumes "wf s" "present s x"
  obtains i where "getBucketIndex s x = Inr i" "0 \<le> i" "nat i < length (buckets s)"
    "x \<in> set (data (bucket_at s (buckets s ! nat i)))"
proof -
  from assms(2) obtain i p b where a: "getBucketIndex s x = Inr i" "slot s i = Inr p"
    "deref s p = Inr b" "x \<in> set (data b)"
    unfolding present_iff by blast
  then have i: "0 \<le> i" "nat i < length (buckets s)" "p = buckets s ! nat i"
    by (simp_all add: slot_eq_Inr)
  then have "p \<in> set (buckets s)" by simp
  then have "b = bucket_at s p" using wf_deref [OF assms(1)] a(3) by simp
  then show ?thesis using that a i by simp
qed

lemma present_store_mono:
  assumes wf: "wf s" and pin: "p \<in> set (buckets s)"
    and sub: "set (data (bucket_at s p)) \<subseteq> set (data b')" and pr: "present s x"
  shows "present (store p b' s) x"
proof -
  from present_wfD [OF wf pr] obtain i where i: "getBucketIndex s x = Inr i" "0 \<le> i"
    "nat i < length (buckets s)" "x \<in> set (data (bucket_at s (buckets s ! nat i)))"
    by blast
  have plt: "p < length (cells s)" using wf_live(2) [OF wf pin] .
  have "x \<in> set (data (bucket_at (store p b' s) (buckets s ! nat i)))"
    using i(4) sub plt by (auto simp: bucket_at_store)
  moreover have "slot (store p b' s) i = Inr (buckets s ! nat i)"
    using i(2,3) by (simp add: slot_eq_Inr)
  ultimately show ?thesis
    using present_wfI [OF wf_store [OF wf], of p b' x i] i(1) by simp
qed

lemma add_Inr_D:
  assumes "add n k s = Inr (r, s')"
  obtains m p b where "n = Suc m" "getBucketIndex s k = Inr r" "slot s r = Inr p" "deref s p = Inr b"
    "fst (bucket_insert k b) \<noteq> 2 \<Longrightarrow> s' = store p (snd (bucket_insert k b)) s"
    "fst (bucket_insert k b) = 2 \<Longrightarrow>
       \<exists>s2. (if localDepth b = globalDepth s then extend (store p (snd (bucket_insert k b)) s)
             else Inr (store p (snd (bucket_insert k b)) s)) = Inr s2 \<and>
            splitImage (add m) r s2 = Inr s'"
proof -
  obtain m where n: "n = Suc m"
    using assms by (cases n) simp_all
  from assms [unfolded n add.simps andThen_eq_Inr]
  obtain i p b where a: "getBucketIndex s k = Inr i" "slot s i = Inr p" "deref s p = Inr b"
    and rest: "(let (ret, b') = bucket_insert k b; s1 = store p b' s
      in if ret = 2 then
          andThen (if localDepth b' = globalDepth s1 then extend s1 else Inr s1) (\<lambda>s2.
          andThen (splitImage (add m) i s2) (\<lambda>s3. Inr (i, s3)))
        else Inr (i, s1)) = Inr (r, s')"
    by blast
  have u: "add (Suc m) k s = Inr (r, s')" using assms n by simp
  note unf = add_Suc_unfold [OF a, of m]
  show ?thesis
  proof (cases "fst (bucket_insert k b) = 2")
    case True
    from u [unfolded unf] True
    have "andThen (if localDepth b = globalDepth s then extend (store p (snd (bucket_insert k b)) s)
                 else Inr (store p (snd (bucket_insert k b)) s)) (\<lambda>s2.
        andThen (splitImage (add m) i s2) (\<lambda>s3. Inr (i, s3))) = Inr (r, s')"
      by simp
    then obtain s2 s3 where "(if localDepth b = globalDepth s then extend (store p (snd (bucket_insert k b)) s)
                 else Inr (store p (snd (bucket_insert k b)) s)) = Inr s2"
      "splitImage (add m) i s2 = Inr s3" "Inr (i, s3) = (Inr (r, s') :: (int \<times> ExtendibleHashMap) outcome)"
      unfolding andThen_eq_Inr by blast
    then show ?thesis using that [OF n, of p b] a True by auto
  next
    case False
    from u [unfolded unf] False have "i = r" "s' = store p (snd (bucket_insert k b)) s"
      by simp_all
    then show ?thesis using that [OF n, of p b] a False by auto
  qed
qed

subsection \<open>Inserting the keys of a split bucket again\<close>

text \<open>
  The keys \<open>P\<close> have been inserted again, the keys \<open>R\<close> are still to come, together they
  are one more than the capacity, and the buckets that the keys of \<open>R\<close> lead to hold
  keys of \<open>P\<close> only. Then a bucket can overflow only on the last key, when it holds
  all of \<open>P\<close>; its split takes all of them along.
\<close>

lemma to_size_t_capacity: "within_capacity s \<Longrightarrow> to_size_t (bucketSize s) = bucketSize s"
  by (simp add: within_capacity_def to_size_t_def)

lemma fold_reinsert_ConsD:
  assumes "fold (reinsert f) (d # R) (Inr t) = Inr s'"
  obtains i q r t1 where "getBucketIndex t d = Inr i" "slot t i = Inr q" "f d t = Inr (r, t1)"
    "fold (reinsert f) R (Inr t1) = Inr s'"
proof -
  have "reinsert f d (Inr t) \<noteq> Inl e" for e
    using assms by auto
  then obtain t1 where t1: "reinsert f d (Inr t) = Inr t1"
    by (cases "reinsert f d (Inr t)") auto
  then obtain i q r where "getBucketIndex t d = Inr i" "slot t i = Inr q" "f d t = Inr r" "t1 = snd r"
    unfolding reinsert_def andThen_eq_Inr by auto
  then show ?thesis
    using that [of i q "fst r" t1] assms t1 by simp
qed

lemma readd_invariant:
  assumes ok: "add_ok n"
  shows "invariant t \<Longrightarrow> fold (reinsert (add n)) R (Inr t) = Inr s' \<Longrightarrow>
         distinct (P @ R) \<Longrightarrow> int (length (P @ R)) = bucketSize t + 1 \<Longrightarrow>
         (\<forall>x \<in> set P. present t x) \<Longrightarrow>
         (\<forall>x \<in> set R. \<forall>i. getBucketIndex t x = Inr i \<longrightarrow> 0 \<le> i \<longrightarrow>
              set (data (bucket_at t (buckets t ! nat i))) \<subseteq> set P) \<Longrightarrow>
         invariant s' \<and> bucketSize s' = bucketSize t \<and> (\<forall>x \<in> set (P @ R). present s' x)"
proof (induction R arbitrary: P t)
  case Nil
  then show ?case by simp
next
  case (Cons d R)
  from Cons.prems(1) have wf: "wf t" and cap: "within_capacity t"
    by (simp_all add: invariant_def)
  from fold_reinsert_ConsD [OF Cons.prems(2)]
  obtain i q r t1 where i: "getBucketIndex t d = Inr i" and q: "slot t i = Inr q"
    and a: "add n d t = Inr (r, t1)" and rest: "fold (reinsert (add n)) R (Inr t1) = Inr s'"
    by blast
  from ok a Cons.prems(1)
  have inv1: "invariant t1" and c1: "bucketSize t1 = bucketSize t" and pd: "present t1 d"
    and frame: "\<And>p x. slot t r = Inr p \<Longrightarrow> x \<in> set (data (bucket_at t p)) \<Longrightarrow>
                 present t x \<Longrightarrow> present t1 x"
    unfolding add_ok_def by blast+
  from add_Inr_D [OF a]
  obtain m p b where n: "n = Suc m" and r: "getBucketIndex t d = Inr r" "slot t r = Inr p"
    and dr: "deref t p = Inr b"
    and plain: "fst (bucket_insert d b) \<noteq> 2 \<Longrightarrow> t1 = store p (snd (bucket_insert d b)) t"
    by metis
  have ri: "r = i" and pq: "p = q" using r i q by simp_all
  have i0: "0 \<le> i" and ilt: "nat i < length (buckets t)" and qi: "q = buckets t ! nat i"
    using q by (simp_all add: slot_eq_Inr)
  have qin: "q \<in> set (buckets t)" using ilt qi by simp
  have b: "b = bucket_at t q"
    using wf_deref [OF wf qin] dr pq by simp
  have sub: "set (data b) \<subseteq> set P"
    using Cons.prems(6) i i0 qi b by simp
  have dP: "d \<notin> set P" and dR: "d \<notin> set R" and dist: "distinct P" "distinct R"
    using Cons.prems(3) by auto
  have dnb: "d \<notin> set (data b)" using sub dP by auto
  have bq: "bsize b = bucketSize t" "distinct (data b)" "int (length (data b)) \<le> bucketSize t"
    using cap qin b by (simp_all add: within_capacity_def)
  show ?case
  proof (cases "fst (bucket_insert d b) = 2")
    case False
    let ?b' = "snd (bucket_insert d b)"
    have t1: "t1 = store q ?b' t" using plain False pq by simp
    have db': "set (data ?b') = insert d (set (data b))"
      using dnb by (simp add: bucket_insert_snd set_insort_key)
    have qlt: "q < length (cells t)" using wf_live(2) [OF wf qin] .
    have p1: "\<forall>x \<in> set (P @ [d]). present t1 x"
    proof
      fix x assume "x \<in> set (P @ [d])"
      then consider "x \<in> set P" | "x = d" by auto
      then show "present t1 x"
      proof cases
        case 1
        then have "present t x" using Cons.prems(5) by simp
        then show ?thesis
          unfolding t1 using b db' by (intro present_store_mono [OF wf qin]) auto
      next
        case 2
        then show ?thesis using pd by simp
      qed
    qed
    have cl1: "\<forall>x \<in> set R. \<forall>j. getBucketIndex t1 x = Inr j \<longrightarrow> 0 \<le> j \<longrightarrow>
                 set (data (bucket_at t1 (buckets t1 ! nat j))) \<subseteq> set (P @ [d])"
    proof (intro ballI allI impI)
      fix x j assume x: "x \<in> set R" and j: "getBucketIndex t1 x = Inr j" "0 \<le> j"
      have "set (data (bucket_at t (buckets t ! nat j))) \<subseteq> set P"
        using Cons.prems(6) x j by (simp add: t1)
      then show "set (data (bucket_at t1 (buckets t1 ! nat j))) \<subseteq> set (P @ [d])"
        using sub b db' qlt by (auto simp: t1 bucket_at_store)
    qed
    have "invariant s' \<and> bucketSize s' = bucketSize t1 \<and> (\<forall>x \<in> set ((P @ [d]) @ R). present s' x)"
      using Cons.prems(3,4) c1 by (intro Cons.IH [OF inv1 rest _ _ p1 cl1]) simp_all
    then show ?thesis using c1 by simp
  next
    case True
    then have "\<not> int (length (data b)) + 1 \<le> bucketSize t"
      using dnb bq(1) to_size_t_capacity [OF cap] by (simp add: bucket_insert_fst split: if_splits)
    then have full: "int (length (data b)) = bucketSize t"
      using bq(3) by simp
    have "card (set (data b)) \<le> card (set P)"
      using sub by (intro card_mono) simp_all
    then have "length (data b) \<le> length P"
      using bq(2) dist(1) by (simp add: distinct_card)
    moreover have "int (length P) + 1 + int (length R) = bucketSize t + 1"
      using Cons.prems(4) by simp
    ultimately have lenP: "length P = length (data b)" and "length R = 0"
      using full by linarith+
    then have R: "R = []" by simp
    have "card (set (data b)) = card (set P)"
      using lenP bq(2) dist(1) by (simp add: distinct_card)
    then have eq: "set (data b) = set P"
      using sub by (intro card_subset_eq) simp_all
    have s': "s' = t1" using rest R by simp
    have "present s' x" if "x \<in> set (P @ d # R)" for x
    proof -
      from that R consider "x \<in> set P" | "x = d" by auto
      then show ?thesis
      proof cases
        case 1
        then have "present t x" "x \<in> set (data (bucket_at t q))"
          using Cons.prems(5) eq b by auto
        then show ?thesis
          unfolding s' using frame [of q x] q ri by simp
      next
        case 2
        then show ?thesis using pd s' by simp
      qed
    qed
    then show ?thesis using inv1 c1 s' by simp
  qed
qed

lemma crem_less:
  assumes "0 < m"
  shows "crem x m < m"
proof (cases "0 \<le> x")
  case True
  then show ?thesis using assms by (simp add: crem_def)
next
  case False
  have "0 \<le> (- x) mod m" using assms by simp
  then have "- ((- x) mod m) < m" using assms by linarith
  then show ?thesis using False by (simp add: crem_def)
qed

lemma leads_to_split_state:
  assumes wf: "wf t" and g: "1 \<le> globalDepth t" and i: "0 \<le> i" "i < 2 ^ nat (globalDepth t)"
    and src: "buckets t ! nat (split_source t i) = p"
    and lt: "leads_to t x p" and j: "getBucketIndex (split_state i t) x = Inr j" "0 \<le> j"
  shows "data (bucket_at (split_state i t) (buckets (split_state i t) ! nat j)) = []"
proof -
  let ?f = "length (cells t)"
  have pin: "p \<in> set (buckets t)"
    using split_indices(4) [OF wf g i] src by auto
  have plt: "p < ?f" using wf_live(2) [OF wf pin] .
  have j': "getBucketIndex t x = Inr j"
    using j(1) by (simp add: getBucketIndex_def)
  then have "j = crem x (2 ^ nat (globalDepth t))"
    using getBucketIndex_wf [OF wf, of x] by simp
  then have "j < 2 ^ nat (globalDepth t)"
    using crem_less [of "2 ^ nat (globalDepth t)" x] by simp
  then have jlt: "nat j < length (buckets t)"
    using wf_index(1) [OF wf j(2)] by simp
  have "buckets t ! nat j = p"
    using leads_to_index [OF wf lt j' j(2)] .
  then have "buckets (split_state i t) ! nat j = p \<or> buckets (split_state i t) ! nat j = ?f"
    unfolding split_state_buckets
    by (cases "nat j = nat (split_target t i)") (use jlt in simp_all)
  moreover have "data (bucket_at (split_state i t) p) = []"
    using bucket_at_split_state [OF wf g i, of p] plt src by simp
  moreover have "data (bucket_at (split_state i t) ?f) = []"
    using bucket_at_split_state [OF wf g i, of ?f] plt src by simp
  ultimately show ?thesis
    by auto
qed

subsection \<open>\<^verbatim>\<open>add\<close> keeps the invariant\<close>

lemma add_Inr_E:
  assumes "add n k s = Inr (r, s')"
  shows "\<exists>m p b. n = Suc m \<and> getBucketIndex s k = Inr r \<and> slot s r = Inr p \<and> deref s p = Inr b \<and>
    (fst (bucket_insert k b) \<noteq> 2 \<longrightarrow> s' = store p (snd (bucket_insert k b)) s) \<and>
    (fst (bucket_insert k b) = 2 \<longrightarrow>
       (\<exists>s2. (if localDepth b = globalDepth s then extend (store p (snd (bucket_insert k b)) s)
             else Inr (store p (snd (bucket_insert k b)) s)) = Inr s2 \<and>
            splitImage (add m) r s2 = Inr s'))"
  by (rule add_Inr_D [OF assms]) blast

lemma add_ok_Suc:
  assumes ok: "add_ok n"
  shows "add_ok (Suc n)"
  unfolding add_ok_def
proof (intro allI impI)
  fix k s r s'
  assume inv: "invariant s" and a: "add (Suc n) k s = Inr (r, s')"
  from inv have wf: "wf s" and cap: "within_capacity s" and ad: "addressed s"
    and im: "image_depth s" and dz: "depth_zero s"
    by (simp_all add: invariant_def)
  from add_Inr_E [OF a]
  obtain m p b where m: "Suc n = Suc m" and r: "getBucketIndex s k = Inr r" and sl: "slot s r = Inr p"
    and dr: "deref s p = Inr b"
    and plain: "fst (bucket_insert k b) \<noteq> 2 \<longrightarrow> s' = store p (snd (bucket_insert k b)) s"
    and over: "fst (bucket_insert k b) = 2 \<longrightarrow>
       (\<exists>s2. (if localDepth b = globalDepth s then extend (store p (snd (bucket_insert k b)) s)
             else Inr (store p (snd (bucket_insert k b)) s)) = Inr s2 \<and>
            splitImage (add m) r s2 = Inr s')"
    by (elim exE conjE)
  have mn: "m = n" using m by simp
  have r0: "0 \<le> r" and rlt: "nat r < length (buckets s)" and pr: "p = buckets s ! nat r"
    using sl by (simp_all add: slot_eq_Inr)
  have pin: "p \<in> set (buckets s)" using rlt pr by simp
  have plt: "p < length (cells s)" and p0: "0 < p"
    using wf_live [OF wf pin] by simp_all
  have b: "b = bucket_at s p"
    using wf_deref [OF wf pin] dr by simp
  have lk: "leads_to s k p"
    using index_leads_to [OF wf r sl] .
  have bq: "bsize b = bucketSize s" "distinct (data b)" "int (length (data b)) \<le> bucketSize s"
    using cap pin b by (simp_all add: within_capacity_def)
  have lb: "\<forall>x \<in> set (data b). leads_to s x p"
    using ad pin b by (simp add: addressed_def)
  let ?b' = "snd (bucket_insert k b)"
  have sb': "set (data ?b') = insert k (set (data b))"
    by (auto simp: bucket_insert_snd set_insort_key)
  have goal_r: "\<forall>q. slot s r = Inr q \<longrightarrow> (\<forall>x \<in> set (data (bucket_at s q)). present s x \<longrightarrow> P x)"
    if "\<forall>x \<in> set (data b). present s x \<longrightarrow> P x" for P
    using that sl b by simp
  show "invariant s' \<and> bucketSize s' = bucketSize s \<and> present s' k \<and>
        (\<forall>p. slot s r = Inr p \<longrightarrow>
             (\<forall>x \<in> set (data (bucket_at s p)). present s x \<longrightarrow> present s' x))"
  proof (cases "fst (bucket_insert k b) = 2")
    case False
    then have s': "s' = store p ?b' s" using plain by simp
    have len: "int (length (data ?b')) \<le> bucketSize s"
      using False bq to_size_t_capacity [OF cap]
      by (auto simp: bucket_insert_snd bucket_insert_fst split: if_splits)
    have dist: "distinct (data ?b')"
      using bq(2) by (simp add: bucket_insert_snd distinct_insort)
    have "invariant s'"
      unfolding s' using lb lk sb' b
      by (intro invariant_store [OF inv pin _ _ dist len]) auto
    moreover have "present s' k"
      unfolding s'
    proof (rule present_wfI [OF wf_store [OF wf]])
      show "getBucketIndex (store p ?b' s) k = Inr r" using r by simp
      show "slot (store p ?b' s) r = Inr p" using sl by simp
      show "k \<in> set (data (bucket_at (store p ?b' s) p))"
        using sb' plt by (simp add: bucket_at_store)
    qed
    moreover have "present s' x" if "present s x" for x
      unfolding s' using that sb' b by (intro present_store_mono [OF wf pin]) auto
    ultimately show ?thesis
      using s' goal_r by simp
  next
    case True
    have knb: "k \<notin> set (data b)"
      using True by (auto simp: bucket_insert_fst split: if_splits)
    then have db': "data ?b' = insort k (data b)" and b': "?b' = b\<lparr>data := insort k (data b)\<rparr>"
      by (simp_all add: bucket_insert_snd)
    have "\<not> int (length (data b)) + 1 \<le> bucketSize s"
      using True knb bq(1) to_size_t_capacity [OF cap] by (simp add: bucket_insert_fst split: if_splits)
    then have full: "int (length (data b)) = bucketSize s"
      using bq(3) by simp
    from over True obtain s2 where
      e: "(if localDepth b = globalDepth s then extend (store p ?b' s) else Inr (store p ?b' s)) = Inr s2"
      and sp: "splitImage (add n) r s2 = Inr s'"
      using mn by blast
    define t where "t = (if localDepth b = globalDepth s then extended s else s)"
    have rpow: "r < 2 ^ nat (globalDepth s)"
      using rlt r0 wf_length [OF wf] by linarith
    have g0: "0 \<le> globalDepth s" using wf by (simp add: wf_def)
    have t_facts: "invariant t \<and> s2 = store p ?b' t \<and> 1 \<le> globalDepth t \<and>
        r < 2 ^ nat (globalDepth t) \<and> buckets t ! nat (split_source t r) = p \<and>
        leads_to t k p \<and> bucket_at t p = b \<and> bucketSize t = bucketSize s \<and>
        cells t = cells s \<and>
        (\<forall>l. l < 2 ^ nat (globalDepth t - 1) \<longrightarrow>
              buckets t ! l \<noteq> buckets t ! (l + 2 ^ nat (globalDepth t - 1)) \<longrightarrow>
              buckets t ! (l + 2 ^ nat (globalDepth t - 1)) \<noteq> p)"
    proof (cases "localDepth b = globalDepth s")
      case ext: True
      have deep: "globalDepth s < 30"
      proof (rule ccontr)
        assume "\<not> globalDepth s < 30"
        then have "extend (store p ?b' s) = Inl ShiftTooLarge"
          by (intro extend_too_deep) simp
        then show False using e ext by simp
      qed
      have "extend (store p ?b' s) = Inr (extended (store p ?b' s))"
        using wf_store [OF wf, of p ?b'] deep by (intro extend_eq) (simp_all add: wf_def)
      then have s2: "s2 = store p ?b' (extended s)"
        using e ext by (simp add: extended_store)
      have len: "length (buckets s) = 2 ^ nat (globalDepth s)"
        using wf by (simp add: wf_def)
      have half: "nat (globalDepth s + 1 - 1) = nat (globalDepth s)" by simp
      have src: "split_source (extended s) r = r"
        using rpow by (simp add: split_source_def)
      have same: "(buckets s @ buckets s) ! l = (buckets s @ buckets s) ! (l + 2 ^ nat (globalDepth s))"
        if "l < 2 ^ nat (globalDepth s)" for l
        using that len by (simp add: nth_append)
      have rt: "r < 2 ^ nat (globalDepth s + 1)"
      proof -
        have "(2::int) ^ nat (globalDepth s) \<le> 2 ^ nat (globalDepth s + 1)"
          by (intro power_increasing) simp_all
        then show ?thesis using rpow by linarith
      qed
      have f1: "invariant (extended s)" using inv deep by (rule invariant_extended)
      have f2: "1 \<le> globalDepth (extended s)" using g0 by simp
      have f3: "r < 2 ^ nat (globalDepth (extended s))" using rt by simp
      have f4: "buckets (extended s) ! nat (split_source (extended s) r) = p"
        using rlt pr by (simp add: src nth_append)
      have f5: "leads_to (extended s) k p" using leads_to_extended [OF wf lk] .
      have f6: "bucket_at (extended s) p = b" "bucketSize (extended s) = bucketSize s"
        "cells (extended s) = cells s"
        using b by simp_all
      have f7: "\<forall>l. l < 2 ^ nat (globalDepth (extended s) - 1) \<longrightarrow>
              buckets (extended s) ! l \<noteq> buckets (extended s) ! (l + 2 ^ nat (globalDepth (extended s) - 1)) \<longrightarrow>
              buckets (extended s) ! (l + 2 ^ nat (globalDepth (extended s) - 1)) \<noteq> p"
      proof (intro allI impI)
        fix l
        assume l: "l < 2 ^ nat (globalDepth (extended s) - 1)"
          and ne: "buckets (extended s) ! l \<noteq> buckets (extended s) ! (l + 2 ^ nat (globalDepth (extended s) - 1))"
        have "l < 2 ^ nat (globalDepth s)" using l by (simp add: half)
        from same [OF this] have "buckets (extended s) ! l = buckets (extended s) ! (l + 2 ^ nat (globalDepth (extended s) - 1))"
          by (simp add: half)
        then show "buckets (extended s) ! (l + 2 ^ nat (globalDepth (extended s) - 1)) \<noteq> p"
          using ne by simp
      qed
      have "t = extended s" unfolding t_def using ext by simp
      then show ?thesis
        using f1 f2 f3 f4 f5 f6 f7 s2 by blast
    next
      case noext: False
      have s2: "s2 = store p ?b' s" using e noext by simp
      have g1: "1 \<le> globalDepth s"
      proof (rule ccontr)
        assume "\<not> 1 \<le> globalDepth s"
        then have z: "globalDepth s = 0" using g0 by simp
        then have "r = 0" using rpow r0 by simp
        then have "localDepth b = 0" using dz z pr b by (simp add: depth_zero_def)
        then show False using noext z by simp
      qed
      have own: "buckets s ! (l + 2 ^ nat (globalDepth s - 1)) \<noteq> p"
        if "l < 2 ^ nat (globalDepth s - 1)"
          "buckets s ! l \<noteq> buckets s ! (l + 2 ^ nat (globalDepth s - 1))" for l
      proof
        assume "buckets s ! (l + 2 ^ nat (globalDepth s - 1)) = p"
        moreover have "localDepth (bucket_at s (buckets s ! (l + 2 ^ nat (globalDepth s - 1)))) = globalDepth s"
          using im g1 that by (simp add: image_depth_def)
        ultimately show False using noext b by simp
      qed
      have src: "buckets s ! nat (split_source s r) = p"
      proof (cases "r < 2 ^ nat (globalDepth s - 1)")
        case True
        then show ?thesis using pr by (simp add: split_source_def)
      next
        case False
        let ?h = "(2::nat) ^ nat (globalDepth s - 1)"
        let ?l = "nat (r - 2 ^ nat (globalDepth s - 1))"
        have suc: "nat (globalDepth s) = Suc (nat (globalDepth s - 1))"
          using g1 by linarith
        have "r < 2 * 2 ^ nat (globalDepth s - 1)"
          using rpow by (simp add: suc)
        then have l: "?l < ?h" using False by (simp add: nat_less_iff)
        have "int (?l + ?h) = r" using False by simp
        then have lh: "?l + ?h = nat r" by linarith
        have "buckets s ! ?l = buckets s ! (?l + ?h)"
          using own [OF l] pr lh by auto
        then show ?thesis
          using False pr lh by (simp add: split_source_def)
      qed
      have "t = s" unfolding t_def using noext by simp
      then show ?thesis
        using inv s2 g1 rpow src lk b own by blast
    qed
    then have invt: "invariant t" and s2: "s2 = store p ?b' t" and g1: "1 \<le> globalDepth t"
      and rt: "r < 2 ^ nat (globalDepth t)" and src: "buckets t ! nat (split_source t r) = p"
      and lkt: "leads_to t k p" and bt: "bucket_at t p = b" and ct: "bucketSize t = bucketSize s"
      and cells_t: "cells t = cells s"
      and own: "\<And>l. l < 2 ^ nat (globalDepth t - 1) \<Longrightarrow>
              buckets t ! l \<noteq> buckets t ! (l + 2 ^ nat (globalDepth t - 1)) \<Longrightarrow>
              buckets t ! (l + 2 ^ nat (globalDepth t - 1)) \<noteq> p"
      by blast+
    from invt have wft: "wf t" and adt: "addressed t" by (simp_all add: invariant_def)
    have wf2: "wf s2" unfolding s2 using wft by (rule wf_store)
    have pint: "p \<in> set (buckets t)"
      using split_indices(4) [OF wft g1 r0 rt] src by auto
    have pltt: "p < length (cells t)" using plt cells_t by simp
    have g2: "1 \<le> globalDepth s2" "r < 2 ^ nat (globalDepth s2)"
      using g1 rt by (simp_all add: s2)
    have src2: "buckets s2 ! nat (split_source s2 r) = p"
      using src by (simp add: s2)
    have "bucket_at s2 p = ?b'"
      using pltt by (simp add: s2 bucket_at_store)
    then have D: "data (bucket_at s2 (buckets s2 ! nat (split_source s2 r))) = insort k (data b)"
      using src2 db' by simp
    have st: "split_state r s2 = split_state r t"
      unfolding s2 b' using split_state_store [of p t r "insort k (data b)"] src pltt bt by simp
    have fold: "fold (reinsert (add n)) (insort k (data b)) (Inr (split_state r t)) = Inr s'"
      using sp splitImage_eq [OF wf2 g2(1) r0 g2(2), of "add n"] D st by simp
    have inv4: "invariant (split_state r t)"
    proof (rule invariant_split_state [OF invt g1 r0 rt])
      fix l
      assume "l < 2 ^ nat (globalDepth t - 1)"
        "buckets t ! l \<noteq> buckets t ! (l + 2 ^ nat (globalDepth t - 1))"
      then show "buckets t ! (l + 2 ^ nat (globalDepth t - 1)) \<noteq> buckets t ! nat (split_source t r)"
        unfolding src by (rule own)
    qed
    have lbt: "leads_to t x p" if "x \<in> set (insort k (data b))" for x
      using that lkt adt pint bt by (auto simp: addressed_def set_insort_key)
    have "invariant s' \<and> bucketSize s' = bucketSize (split_state r t) \<and>
          (\<forall>x \<in> set ([] @ insort k (data b)). present s' x)"
    proof (rule readd_invariant [OF ok inv4 fold])
      show "distinct ([] @ insort k (data b))"
        using bq(2) knb by (simp add: distinct_insort set_insort_key)
      show "int (length ([] @ insort k (data b))) = bucketSize (split_state r t) + 1"
        using full ct by simp
      show "\<forall>x \<in> set []. present (split_state r t) x" by simp
      show "\<forall>x \<in> set (insort k (data b)). \<forall>i. getBucketIndex (split_state r t) x = Inr i \<longrightarrow> 0 \<le> i \<longrightarrow>
              set (data (bucket_at (split_state r t) (buckets (split_state r t) ! nat i))) \<subseteq> set []"
        using leads_to_split_state [OF wft g1 r0 rt src lbt] by simp
    qed
    then show ?thesis
      using ct sl b by (auto simp: set_insort_key)
  qed
qed

lemma add_ok: "add_ok n"
proof (induction n)
  case 0
  show ?case by (simp add: add_ok_def)
next
  case (Suc n)
  then show ?case by (rule add_ok_Suc)
qed

lemma add_invariant:
  assumes "invariant s" "add n k s = Inr (r, s')"
  shows "invariant s'" "present s' k"
  using add_ok [of n] assms unfolding add_ok_def by blast+

section \<open>The merge and the shrink of \<^verbatim>\<open>remove\<close>, step by step\<close>

subsection \<open>The merge\<close>

lemma set_moved_keys [simp]: "set (moved_keys src dst) = set src \<union> set dst"
  unfolding moved_keys_def by (induction src arbitrary: dst) (auto simp: set_insort_key)

lemma distinct_moved_keys: "distinct dst \<Longrightarrow> distinct (moved_keys src dst)"
  unfolding moved_keys_def by (induction src arbitrary: dst) (simp_all add: distinct_insort)

lemma length_moved_keys: "length (moved_keys src dst) \<le> length src + length dst"
  unfolding moved_keys_def
proof (induction src arbitrary: dst)
  case Nil
  show ?case by simp
next
  case (Cons e src)
  show ?case using Cons [of "if e \<in> set dst then dst else insort e dst"] by (simp split: if_splits)
qed

lemma moved_keys_same: "set src \<subseteq> set dst \<Longrightarrow> moved_keys src dst = dst"
  unfolding moved_keys_def by (induction src) simp_all

lemma store_store [simp]: "store p b (store p b' s) = store p b s"
  by (simp add: store_def)

lemma slot_int:
  "0 \<le> i \<Longrightarrow> i < int (length (buckets s)) \<Longrightarrow> slot s i = Inr (buckets s ! nat i)"
  by (simp add: slot_def)

lemma set_slot_int:
  "0 \<le> i \<Longrightarrow> i < int (length (buckets s)) \<Longrightarrow>
   set_slot i p s = Inr (s\<lparr>buckets := (buckets s)[nat i := p]\<rparr>)"
  by (simp add: set_slot_def)

lemma merge_loop_fold:
  assumes "0 \<le> lo" "lo < int (length (buckets s))" "p = buckets s ! nat lo"
    "0 < p" "p < length (cells s)"
  shows "fold (merge_loop lo) es (Inr (store p (b\<lparr>data := d\<rparr>) s))
         = Inr (store p (b\<lparr>data := moved_keys es d\<rparr>) s)"
proof (induction es arbitrary: d)
  case Nil
  show ?case by (simp add: moved_keys_def)
next
  case (Cons e es)
  have sl: "slot (store p (b\<lparr>data := d\<rparr>) s) lo = Inr p"
    using assms(1,2,3) by (simp add: slot_int)
  have dr: "deref (store p (b\<lparr>data := d\<rparr>) s) p = Inr (b\<lparr>data := d\<rparr>)"
    using assms(4,5) by (simp add: deref_store)
  have "merge_loop lo e (Inr (store p (b\<lparr>data := d\<rparr>) s))
        = Inr (store p (snd (bucket_insert e (b\<lparr>data := d\<rparr>))) (store p (b\<lparr>data := d\<rparr>) s))"
    unfolding merge_loop_def andThen_Inr sl dr ..
  then have "merge_loop lo e (Inr (store p (b\<lparr>data := d\<rparr>) s))
        = Inr (store p (b\<lparr>data := (if e \<in> set d then d else insort e d)\<rparr>) s)"
    by (simp add: bucket_insert_snd)
  then show ?case
    using Cons [of "if e \<in> set d then d else insort e d"] by (simp add: moved_keys_def)
qed

lemma store_same: "p < length (cells s) \<Longrightarrow> cells s ! p = Some b \<Longrightarrow> store p b s = s"
  by (simp add: store_def list_update_same_conv)

text \<open>The three parts of the merge on two slots with different buckets.\<close>

lemma merge_distinct:
  assumes wf: "wf s" and lo: "0 \<le> lo" "lo < int (length (buckets s))"
    and hi: "0 \<le> hi" "hi < int (length (buckets s))"
    and ne: "buckets s ! nat lo \<noteq> buckets s ! nat hi"
  shows "merge lo hi s = Inr (merged lo hi s)"
proof -
  let ?p = "buckets s ! nat lo" and ?q = "buckets s ! nat hi"
  let ?bp = "bucket_at s ?p" and ?bq = "bucket_at s ?q"
  have nlo: "nat lo < length (buckets s)" and nhi: "nat hi < length (buckets s)"
    using lo hi by simp_all
  have pin: "?p \<in> set (buckets s)" and qin: "?q \<in> set (buckets s)"
    using nlo nhi by simp_all
  note p = wf_live [OF wf pin] and q = wf_live [OF wf qin]
  have slq: "slot s hi = Inr ?q" using hi by (simp add: slot_int)
  have drq: "deref s ?q = Inr ?bq" using wf qin by (rule wf_deref)
  have s_as: "s = store ?p (?bp\<lparr>data := data ?bp\<rparr>) s"
    using store_same [OF p(2,3)] by simp
  let ?s1 = "store ?p (?bp\<lparr>data := moved_keys (data ?bq) (data ?bp)\<rparr>) s"
  have "fold (merge_loop lo) (data ?bq) (Inr (store ?p (?bp\<lparr>data := data ?bp\<rparr>) s)) = Inr ?s1"
    using lo p by (intro merge_loop_fold) simp_all
  then have keys: "merge_keys lo hi s = Inr ?s1"
    using s_as by (simp add: merge_keys_def slq drq)
  let ?s2 = "?s1\<lparr>cells := (cells ?s1)[?q := None]\<rparr>"
  let ?s3 = "?s2\<lparr>buckets := (buckets s)[nat hi := ?p]\<rparr>"
  have dq1: "deref ?s1 ?q = Inr ?bq"
    using p(2) ne drq by (simp add: deref_store)
  have del: "delete_bucket ?q ?s1 = Inr ?s2"
    using q(1) dq1 by (simp add: delete_bucket_def)
  have sl1: "slot ?s1 hi = Inr ?q" "slot ?s2 lo = Inr ?p"
    using lo hi by (simp_all add: slot_int)
  have ss2: "set_slot hi ?p ?s2 = Inr ?s3"
    using hi by (simp add: set_slot_int)
  have rel: "merge_release lo hi ?s1 = Inr ?s3"
    unfolding merge_release_def sl1 andThen_Inr del ss2 ..
  have nn: "nat hi \<noteq> nat lo" using ne by auto
  have sl3: "slot ?s3 lo = Inr ?p"
    using lo nn by (simp add: slot_int)
  have dr3: "deref ?s3 ?p = Inr (?bp\<lparr>data := moved_keys (data ?bq) (data ?bp)\<rparr>)"
    using p(1,2) ne by (simp add: deref_def store_def)
  let ?b3 = "?bp\<lparr>data := moved_keys (data ?bq) (data ?bp)\<rparr>"
  have "dec_localDepth lo ?s3 = Inr (store ?p (?b3\<lparr>localDepth := localDepth ?b3 - 1\<rparr>) ?s3)"
    unfolding dec_localDepth_def sl3 andThen_Inr dr3 ..
  moreover have "store ?p (?b3\<lparr>localDepth := localDepth ?b3 - 1\<rparr>) ?s3 = merged lo hi s"
    using ne by (simp add: store_def merged_def Let_def list_update_swap)
  ultimately have dec: "dec_localDepth lo ?s3 = Inr (merged lo hi s)"
    by simp
  show ?thesis
    by (simp add: merge_def keys rel dec)
qed

text \<open>The merge on two slots with the same bucket: the bucket is released, and the
  decrement of the local depth is a write to the released bucket.\<close>

lemma merge_same:
  assumes wf: "wf s" and lo: "0 \<le> lo" "lo < int (length (buckets s))"
    and hi: "0 \<le> hi" "hi < int (length (buckets s))"
    and eq: "buckets s ! nat lo = buckets s ! nat hi"
  shows "merge lo hi s = Inl UseAfterFree"
proof -
  let ?p = "buckets s ! nat lo"
  let ?bp = "bucket_at s ?p"
  have nlo: "nat lo < length (buckets s)" and nhi: "nat hi < length (buckets s)"
    using lo hi by simp_all
  have pin: "?p \<in> set (buckets s)" using nlo by simp
  note p = wf_live [OF wf pin]
  have slq: "slot s hi = Inr ?p" using hi eq by (simp add: slot_int)
  have drq: "deref s ?p = Inr ?bp" using wf pin by (rule wf_deref)
  have s_as: "s = store ?p (?bp\<lparr>data := data ?bp\<rparr>) s"
    using store_same [OF p(2,3)] by simp
  have "fold (merge_loop lo) (data ?bp) (Inr (store ?p (?bp\<lparr>data := data ?bp\<rparr>) s))
        = Inr (store ?p (?bp\<lparr>data := moved_keys (data ?bp) (data ?bp)\<rparr>) s)"
    using lo p by (intro merge_loop_fold) simp_all
  then have keys: "merge_keys lo hi s = Inr s"
    using s_as by (simp add: merge_keys_def slq drq moved_keys_same)
  let ?s2 = "s\<lparr>cells := (cells s)[?p := None]\<rparr>"
  have del: "delete_bucket ?p s = Inr ?s2"
    using p(1) drq by (simp add: delete_bucket_def)
  have upd: "(buckets s)[nat hi := ?p] = buckets s"
    using eq by (simp add: list_update_same_conv nhi)
  have sl2: "slot ?s2 lo = Inr ?p"
    using lo by (simp add: slot_int)
  have ss2: "set_slot hi ?p ?s2 = Inr ?s2"
    using hi by (simp add: set_slot_int upd)
  have rel: "merge_release lo hi s = Inr ?s2"
    unfolding merge_release_def slq andThen_Inr del sl2 ss2 ..
  have dr2: "deref ?s2 ?p = Inl UseAfterFree"
    using p(1,2) by (simp add: deref_def)
  show ?thesis
    by (simp add: merge_def keys rel dec_localDepth_def sl2 dr2)
qed

subsection \<open>The scan of the local depths and the shrink\<close>

lemma depths_equal_eq:
  assumes wf: "wf t"
  shows "\<forall>i \<in> set js. i < length (buckets t) \<Longrightarrow>
         depths_equal t js =
         Inr (\<forall>i \<in> set js. localDepth (bucket_at t (buckets t ! i))
                            = localDepth (bucket_at t (buckets t ! 0)))"
proof (induction js)
  case Nil
  show ?case by simp
next
  case (Cons i js)
  then have i: "i < length (buckets t)" by simp
  then have pos: "0 < length (buckets t)" by (cases "buckets t") simp_all
  have s1: "slot t (int i) = Inr (buckets t ! i)" "slot t 0 = Inr (buckets t ! 0)"
    using i pos by (simp_all add: slot_def)
  have d1: "deref t (buckets t ! i) = Inr (bucket_at t (buckets t ! i))"
    "deref t (buckets t ! 0) = Inr (bucket_at t (buckets t ! 0))"
    using i pos by (simp_all add: wf_deref [OF wf])
  show ?case
    using Cons by (simp add: s1 d1)
qed

lemma all_depths_nth:
  "all_depths t d \<longleftrightarrow> (\<forall>i < length (buckets t). localDepth (bucket_at t (buckets t ! i)) = d)"
  unfolding all_depths_def by (metis in_set_conv_nth nth_mem)

lemma reduceDirectory_eq:
  assumes wf: "wf t" and g: "1 \<le> globalDepth t"
  shows "reduceDirectory t = Inr (halved t)"
proof -
  have sh: "shl1 (globalDepth t - 1) = Inr (2 ^ nat (globalDepth t - 1))"
    using wf g by (simp add: shl1_def wf_def)
  have "(2::nat) ^ nat (globalDepth t - 1) \<le> 2 ^ nat (globalDepth t)"
    by (intro power_increasing) simp_all
  then have "nat (2 ^ nat (globalDepth t - 1)) - length (buckets t) = 0"
    using wf by (simp add: wf_def nat_power_eq)
  then show ?thesis
    by (simp add: reduceDirectory_def Let_def sh resize_def halved_def nat_power_eq)
qed

lemma shrink_check_eq:
  assumes wf: "wf t" and g: "1 \<le> globalDepth t"
  shows "shrink_check t = Inr (shrunk t)"
proof -
  let ?n = "length (buckets t)"
  let ?ld = "\<lambda>i. localDepth (bucket_at t (buckets t ! i))"
  have pos: "0 < ?n" using wf by (simp add: wf_def)
  have de: "depths_equal t [1 ..< ?n] = Inr (\<forall>i \<in> set [1 ..< ?n]. ?ld i = ?ld 0)"
    by (rule depths_equal_eq [OF wf]) simp
  have s0: "slot t 0 = Inr (buckets t ! 0)" using pos by (simp add: slot_def)
  have d0: "deref t (buckets t ! 0) = Inr (bucket_at t (buckets t ! 0))"
    using pos by (simp add: wf_deref [OF wf])
  have iff: "all_depths t (globalDepth t - 1) \<longleftrightarrow>
        (\<forall>i \<in> set [1 ..< ?n]. ?ld i = ?ld 0) \<and> globalDepth t - 1 = ?ld 0"
  proof
    assume a: "all_depths t (globalDepth t - 1)"
    then show "(\<forall>i \<in> set [1 ..< ?n]. ?ld i = ?ld 0) \<and> globalDepth t - 1 = ?ld 0"
      using pos by (simp add: all_depths_nth)
  next
    assume b: "(\<forall>i \<in> set [1 ..< ?n]. ?ld i = ?ld 0) \<and> globalDepth t - 1 = ?ld 0"
    show "all_depths t (globalDepth t - 1)"
      unfolding all_depths_nth
    proof (intro allI impI)
      fix i assume "i < ?n"
      then show "?ld i = globalDepth t - 1"
        using b by (cases "i = 0") simp_all
    qed
  qed
  show ?thesis
    unfolding shrink_check_def de andThen_Inr
    using iff by (auto simp: s0 d0 shrunk_def reduceDirectory_eq [OF wf g])
qed

subsection \<open>The invariant after the erase and after the merge\<close>

lemma invariant_erased:
  assumes inv: "invariant s" and i: "0 \<le> i" "i < int (length (buckets s))"
  shows "invariant (erased key i s)"
proof -
  let ?p = "buckets s ! nat i"
  from inv have ad: "addressed s" and cap: "within_capacity s"
    by (simp_all add: invariant_def)
  have pin: "?p \<in> set (buckets s)" using i by simp
  have d: "distinct (data (bucket_at s ?p))" and l: "int (length (data (bucket_at s ?p))) \<le> bucketSize s"
    using cap pin by (simp_all add: within_capacity_def)
  have "length (remove1 key (data (bucket_at s ?p))) \<le> length (data (bucket_at s ?p))"
    by (simp add: length_remove1)
  then have l': "int (length (remove1 key (data (bucket_at s ?p)))) \<le> bucketSize s"
    using l by linarith
  have a: "\<forall>x \<in> set (remove1 key (data (bucket_at s ?p))). leads_to s x ?p"
    using ad pin by (auto simp: addressed_def dest: notin_set_remove1)
  show ?thesis
    unfolding erased_def using d l' a
    by (intro invariant_store [OF inv pin]) (simp_all add: bucket_erase_def)
qed

lemma merged_fields [simp]:
  "globalDepth (merged lo hi s) = globalDepth s"
  "bucketSize (merged lo hi s) = bucketSize s"
  "length (cells (merged lo hi s)) = length (cells s)"
  "length (buckets (merged lo hi s)) = length (buckets s)"
  by (simp_all add: merged_def Let_def)

lemma merged_buckets:
  "buckets (merged lo hi s) = (buckets s)[nat hi := buckets s ! nat lo]"
  by (simp add: merged_def Let_def)

lemma invariant_merged:
  assumes inv: "invariant t" and g: "1 \<le> globalDepth t"
    and lo: "lo < 2 ^ nat (globalDepth t - 1)"
    and ne: "buckets t ! lo \<noteq> buckets t ! (lo + 2 ^ nat (globalDepth t - 1))"
    and uf: "underfull t (int lo)" "underfull t (int (lo + 2 ^ nat (globalDepth t - 1)))"
  shows "invariant (merged (int lo) (int lo + 2 ^ nat (globalDepth t - 1)) t)"
proof -
  from inv have wf: "wf t" and pu: "private_upper (buckets t)" and ad: "addressed t"
    and cap: "within_capacity t" and im: "image_depth t"
    by (simp_all add: invariant_def)
  let ?h = "(2::nat) ^ nat (globalDepth t - 1)"
  let ?hi = "lo + ?h"
  let ?B = "buckets t"
  let ?p = "?B ! lo" and ?q = "?B ! ?hi"
  let ?t' = "merged (int lo) (int lo + 2 ^ nat (globalDepth t - 1)) t"
  let ?bp' = "(bucket_at t ?p)\<lparr>data := moved_keys (data (bucket_at t ?q)) (data (bucket_at t ?p)),
                                localDepth := localDepth (bucket_at t ?p) - 1\<rparr>"
  have suc: "nat (globalDepth t) = Suc (nat (globalDepth t - 1))"
    using g by linarith
  have len: "length ?B = 2 ^ Suc (nat (globalDepth t - 1))"
    using wf by (simp add: wf_def suc)
  have lolt: "lo < length ?B" and hilt: "?hi < length ?B"
    using lo len by simp_all
  have pin: "?p \<in> set ?B" and qin: "?q \<in> set ?B"
    using lolt hilt by simp_all
  note p = wf_live [OF wf pin] and q = wf_live [OF wf qin]
  have only_q: "i = ?hi" if "i < length ?B" "?B ! i = ?q" for i
    using pu lo ne that len unfolding private_upper_def by (metis order_refl)
  have nhi: "nat (int lo + 2 ^ nat (globalDepth t - 1)) = ?hi"
    by (simp add: nat_add_distrib nat_power_eq)
  have B': "buckets ?t' = ?B[?hi := ?p]"
    by (simp add: merged_buckets nhi)
  have mem: "x \<in> set ?B \<and> x \<noteq> ?q" if "x \<in> set (buckets ?t')" for x
  proof -
    from that obtain k where k: "k < length ?B" "?B[?hi := ?p] ! k = x"
      unfolding B' by (metis in_set_conv_nth length_list_update)
    show ?thesis
    proof (cases "k = ?hi")
      case True
      then have "x = ?p" using k hilt by simp
      then show ?thesis using pin ne by simp
    next
      case False
      then have "x = ?B ! k" using k by simp
      then show ?thesis using only_q [OF k(1)] False k(1) by auto
    qed
  qed
  have at: "bucket_at ?t' x = (if x = ?p then ?bp' else bucket_at t x)" if "x \<noteq> ?q" "x < length (cells t)" for x
    using that p(2) by (simp add: merged_def Let_def bucket_at_def nth_list_update nhi)
  have "wf ?t'"
    unfolding wf_def
  proof (intro conjI ballI)
    show "0 \<le> globalDepth ?t'" "globalDepth ?t' < 31" "length (buckets ?t') = 2 ^ nat (globalDepth ?t')"
      using wf by (simp_all add: wf_def)
    fix x assume x: "x \<in> set (buckets ?t')"
    then have xin: "x \<in> set ?B" and xq: "x \<noteq> ?q" using mem by simp_all
    note xl = wf_live [OF wf xin]
    show "0 < x" "x < length (cells ?t')" using xl by simp_all
    show "cells ?t' ! x \<noteq> None"
      using xl xq p(2) by (simp add: merged_def Let_def nth_list_update nhi)
  qed
  moreover have "private_upper (buckets ?t')"
    unfolding B' using pu len lo by (rule private_upper_merge)
  moreover have "addressed ?t'"
    unfolding addressed_def
  proof (intro ballI)
    fix x k
    assume x: "x \<in> set (buckets ?t')" and k: "k \<in> set (data (bucket_at ?t' x))"
    have xin: "x \<in> set ?B" and xq: "x \<noteq> ?q" using mem [OF x] by simp_all
    have xl: "x < length (cells t)" using wf_live(2) [OF wf xin] .
    have src: "(leads_to t k x) \<or> (x = ?p \<and> leads_to t k ?q)"
    proof (cases "x = ?p")
      case True
      then have "k \<in> set (data (bucket_at t ?q)) \<or> k \<in> set (data (bucket_at t ?p))"
        using k at [OF xq xl] by simp
      then show ?thesis
        using ad pin qin True by (auto simp: addressed_def)
    next
      case False
      then have "k \<in> set (data (bucket_at t x))" using k at [OF xq xl] by simp
      then show ?thesis using ad xin by (auto simp: addressed_def)
    qed
    have hi0: "?hi \<noteq> 0" by simp
    show "leads_to ?t' k x"
      unfolding leads_to_def
    proof (intro conjI impI)
      assume k0: "0 \<le> k"
      let ?n = "nat (k mod 2 ^ nat (globalDepth t))"
      have nlt: "?n < length ?B"
        using wf_index(1) [OF wf, of "k mod 2 ^ nat (globalDepth t)"] by simp
      from src show "buckets ?t' ! nat (k mod 2 ^ nat (globalDepth ?t')) = x"
      proof
        assume "leads_to t k x"
        then have "?B ! ?n = x" using k0 by (simp add: leads_to_def)
        then show ?thesis
          using only_q [OF nlt] xq nlt by (cases "?n = ?hi") (simp_all add: B')
      next
        assume a: "x = ?p \<and> leads_to t k ?q"
        then have "?B ! ?n = ?q" using k0 by (simp add: leads_to_def)
        then have "?n = ?hi" using only_q [OF nlt] by simp
        then show ?thesis using a hilt by (simp add: B')
      qed
    next
      assume kn: "k < 0"
      from src show "buckets ?t' ! 0 = x"
      proof
        assume "leads_to t k x"
        then show ?thesis using kn hi0 by (simp add: leads_to_def B')
      next
        assume a: "x = ?p \<and> leads_to t k ?q"
        then have "?B ! 0 = ?q" using kn by (simp add: leads_to_def)
        moreover have "0 < length ?B" using lolt by linarith
        ultimately have "0 = ?hi" using only_q [of 0] by blast
        then show ?thesis using hi0 by simp
      qed
    qed
  qed
  moreover have "within_capacity ?t'"
    unfolding within_capacity_def
  proof (intro conjI ballI)
    show "0 \<le> bucketSize ?t'" "bucketSize ?t' < 2 ^ 31"
      using cap by (simp_all add: within_capacity_def)
    fix x assume x: "x \<in> set (buckets ?t')"
    have xin: "x \<in> set ?B" and xq: "x \<noteq> ?q" using mem [OF x] by simp_all
    have xl: "x < length (cells t)" using wf_live(2) [OF wf xin] .
    have cp: "bsize (bucket_at t ?p) = bucketSize t" "distinct (data (bucket_at t ?p))"
      and cx: "bsize (bucket_at t x) = bucketSize t" "distinct (data (bucket_at t x))"
        "int (length (data (bucket_at t x))) \<le> bucketSize t"
      using cap pin xin by (simp_all add: within_capacity_def)
    have "int (length (moved_keys (data (bucket_at t ?q)) (data (bucket_at t ?p))))
          \<le> int (length (data (bucket_at t ?q))) + int (length (data (bucket_at t ?p)))"
      using length_moved_keys [of "data (bucket_at t ?q)" "data (bucket_at t ?p)"] by linarith
    also have "\<dots> \<le> bucketSize t div 2 + bucketSize t div 2"
      using uf by (simp add: underfull_def nhi)
    also have "\<dots> \<le> bucketSize t" by simp
    finally have lm: "int (length (moved_keys (data (bucket_at t ?q)) (data (bucket_at t ?p)))) \<le> bucketSize t" .
    show "bsize (bucket_at ?t' x) = bucketSize ?t'" "distinct (data (bucket_at ?t' x))"
      "int (length (data (bucket_at ?t' x))) \<le> bucketSize ?t'"
      using at [OF xq xl] cp cx lm by (simp_all add: distinct_moved_keys)
  qed
  moreover have "image_depth ?t'"
    unfolding image_depth_def
  proof (intro allI impI)
    fix l
    assume l: "l < 2 ^ nat (globalDepth ?t' - 1)"
      and d: "buckets ?t' ! l \<noteq> buckets ?t' ! (l + 2 ^ nat (globalDepth ?t' - 1))"
    have l': "l < ?h" using l by simp
    then have llt: "l < length ?B" and lhlt: "l + ?h < length ?B" and lhi: "l \<noteq> ?hi"
      using len by simp_all
    have llo: "l \<noteq> lo"
    proof
      assume "l = lo"
      then show False using d hilt lhi by (simp add: B')
    qed
    then have up: "buckets ?t' ! (l + ?h) = ?B ! (l + ?h)" and low: "buckets ?t' ! l = ?B ! l"
      using lhi by (simp_all add: B')
    then have d': "?B ! l \<noteq> ?B ! (l + ?h)" using d by simp
    then have ld: "localDepth (bucket_at t (?B ! (l + ?h))) = globalDepth t"
      using im g l' by (simp add: image_depth_def)
    have only_u: "i = l + ?h" if "i < length ?B" "?B ! i = ?B ! (l + ?h)" for i
      using pu l' d' that len unfolding private_upper_def by (metis order_refl)
    have "?B ! (l + ?h) \<noteq> ?p"
      using only_u [OF lolt] lo by auto
    moreover have "?B ! (l + ?h) \<noteq> ?q"
      using only_q [OF lhlt] llo by auto
    moreover have "?B ! (l + ?h) < length (cells t)"
      using wf_live(2) [OF wf] lhlt by simp
    ultimately show "localDepth (bucket_at ?t' (buckets ?t' ! (l + 2 ^ nat (globalDepth ?t' - 1)))) = globalDepth ?t'"
      using at [of "?B ! (l + ?h)"] up ld by simp
  qed
  moreover have "depth_zero ?t'"
    using g by (simp add: depth_zero_def)
  ultimately show ?thesis
    by (simp add: invariant_def)
qed

subsection \<open>The invariant after the shrink\<close>

lemma halved_fields [simp]:
  "globalDepth (halved s) = globalDepth s - 1"
  "bucketSize (halved s) = bucketSize s"
  "buckets (halved s) = take (2 ^ nat (globalDepth s - 1)) (buckets s)"
  "cells (halved s) = cells s"
  by (simp_all add: halved_def)

lemma bucket_at_halved [simp]: "bucket_at (halved s) p = bucket_at s p"
  by (simp add: bucket_at_def)

lemma mod_double:
  fixes k m :: int
  assumes "0 < m"
  shows "k mod (2 * m) = k mod m \<or> k mod (2 * m) = k mod m + m"
proof -
  let ?r = "k mod (2 * m)"
  have r: "0 \<le> ?r" "?r < 2 * m" using assms by simp_all
  have e: "?r mod m = k mod m" by (simp add: mod_mod_cancel)
  show ?thesis
  proof (cases "?r < m")
    case True
    then have "?r mod m = ?r" using r by simp
    then show ?thesis using e by simp
  next
    case False
    have "?r mod m = (?r - m) mod m" by simp
    also have "\<dots> = ?r - m"
      by (rule mod_pos_pos_trivial) (use r False in linarith)+
    finally show ?thesis using e by linarith
  qed
qed

lemma invariant_shrunk:
  assumes inv: "invariant t" and g: "1 \<le> globalDepth t"
  shows "invariant (shrunk t)"
proof (cases "all_depths t (globalDepth t - 1)")
  case False
  then show ?thesis using inv by (simp add: shrunk_def)
next
  case all: True
  from inv have wf: "wf t" and pu: "private_upper (buckets t)" and ad: "addressed t"
    and cap: "within_capacity t" and im: "image_depth t"
    by (simp_all add: invariant_def)
  let ?h = "(2::nat) ^ nat (globalDepth t - 1)"
  let ?B = "buckets t"
  have suc: "nat (globalDepth t) = Suc (nat (globalDepth t - 1))"
    using g by linarith
  have len: "length ?B = 2 * ?h"
    using wf by (simp add: wf_def suc)
  have sub: "set (take ?h ?B) \<subseteq> set ?B" by (rule set_take_subset)
  have ld: "localDepth (bucket_at t p) = globalDepth t - 1" if "p \<in> set ?B" for p
    using all that by (simp add: all_depths_def)
  have pair: "?B ! l = ?B ! (l + ?h)" if "l < ?h" for l
  proof (rule ccontr)
    assume "?B ! l \<noteq> ?B ! (l + ?h)"
    then have "localDepth (bucket_at t (?B ! (l + ?h))) = globalDepth t"
      using im g that by (simp add: image_depth_def)
    moreover have "?B ! (l + ?h) \<in> set ?B" using that len by simp
    ultimately show False using ld by fastforce
  qed
  have "wf (halved t)"
    using wf g len sub by (auto simp: wf_def)
  moreover have "private_upper (buckets (halved t))"
    using pu by (simp add: private_upper_take)
  moreover have "addressed (halved t)"
    unfolding addressed_def
  proof (intro ballI)
    fix p k
    assume p: "p \<in> set (buckets (halved t))" and k: "k \<in> set (data (bucket_at (halved t) p))"
    then have "p \<in> set ?B" using sub by auto
    then have lt: "leads_to t k p" using ad k by (simp add: addressed_def)
    show "leads_to (halved t) k p"
      unfolding leads_to_def
    proof (intro conjI impI)
      assume k0: "0 \<le> k"
      let ?m = "nat (k mod 2 ^ nat (globalDepth t - 1))"
      let ?n = "nat (k mod 2 ^ nat (globalDepth t))"
      have mlt: "?m < ?h"
        by (simp add: nat_less_iff)
      have Bn: "?B ! ?n = p" using lt k0 by (simp add: leads_to_def)
      have pw: "(2::int) ^ nat (globalDepth t) = 2 * 2 ^ nat (globalDepth t - 1)"
        by (simp add: suc)
      have m0: "0 \<le> k mod 2 ^ nat (globalDepth t - 1)" by simp
      have "k mod (2 * 2 ^ nat (globalDepth t - 1)) = k mod 2 ^ nat (globalDepth t - 1) \<or>
            k mod (2 * 2 ^ nat (globalDepth t - 1)) = k mod 2 ^ nat (globalDepth t - 1) + 2 ^ nat (globalDepth t - 1)"
        by (rule mod_double) simp
      then have "?n = ?m \<or> ?n = nat (k mod 2 ^ nat (globalDepth t - 1) + 2 ^ nat (globalDepth t - 1))"
        unfolding pw by presburger
      moreover have "nat (k mod 2 ^ nat (globalDepth t - 1) + 2 ^ nat (globalDepth t - 1)) = ?m + ?h"
        using m0 by (simp add: nat_add_distrib nat_power_eq)
      ultimately have "?n = ?m \<or> ?n = ?m + ?h"
        by presburger
      then have "?B ! ?m = p"
        using Bn pair [OF mlt] by auto
      then show "buckets (halved t) ! nat (k mod 2 ^ nat (globalDepth (halved t))) = p"
        using mlt by simp
    next
      assume "k < 0"
      then show "buckets (halved t) ! 0 = p"
        using lt by (simp add: leads_to_def)
    qed
  qed
  moreover have "within_capacity (halved t)"
    using cap sub by (auto simp: within_capacity_def)
  moreover have "image_depth (halved t)"
    unfolding image_depth_def
  proof (intro allI impI)
    fix l :: nat
    assume g': "1 \<le> globalDepth (halved t)" and l: "l < 2 ^ nat (globalDepth (halved t) - 1)"
    have "nat (globalDepth t - 1) = Suc (nat (globalDepth t - 1 - 1))"
      using g' by simp
    then have "2 * (2::nat) ^ nat (globalDepth t - 1 - 1) = ?h"
      by simp
    then have "l + 2 ^ nat (globalDepth t - 1 - 1) < ?h" using l by simp
    then have "buckets (halved t) ! (l + 2 ^ nat (globalDepth (halved t) - 1)) \<in> set ?B"
      using len by simp
    then show "localDepth (bucket_at (halved t) (buckets (halved t) ! (l + 2 ^ nat (globalDepth (halved t) - 1))))
          = globalDepth (halved t)"
      using ld by simp
  qed
  moreover have "depth_zero (halved t)"
    using ld [of "?B ! 0"] len by (simp add: depth_zero_def)
  ultimately show ?thesis
    using all by (simp add: invariant_def shrunk_def)
qed

subsection \<open>\<^verbatim>\<open>remove\<close> on a table that satisfies the invariant\<close>

lemma erased_fields [simp]:
  "globalDepth (erased key i s) = globalDepth s"
  "bucketSize (erased key i s) = bucketSize s"
  "buckets (erased key i s) = buckets s"
  by (simp_all add: erased_def)

lemma small_eq:
  assumes wf: "wf t" and cap: "0 \<le> bucketSize t" "bucketSize t < 2 ^ 31"
    and i: "0 \<le> i" "i < int (length (buckets t))"
  shows "small t i = Inr (underfull t i)"
proof -
  have "to_size_t (chalf (bucketSize t)) = bucketSize t div 2"
    using cap by (simp add: to_size_t_def chalf_def)
  moreover have "deref t (buckets t ! nat i) = Inr (bucket_at t (buckets t ! nat i))"
    using i by (intro wf_deref [OF wf]) simp
  ultimately show ?thesis
    using i by (simp add: small_def slot_int underfull_def)
qed

text \<open>The image slot of a valid index is the other slot of its pair.\<close>

lemma image_slot_pair:
  assumes wf: "wf s" and g: "1 \<le> globalDepth s" and i: "0 \<le> i" "i < 2 ^ nat (globalDepth s)"
  shows "getImageIndex s i = Inr (image_slot s i)"
    and "0 \<le> image_slot s i" and "image_slot s i < int (length (buckets s))"
    and "image_slot s i \<noteq> i"
    and "\<exists>lo. lo < 2 ^ nat (globalDepth s - 1) \<and> min i (image_slot s i) = int lo \<and>
              max i (image_slot s i) = int lo + 2 ^ nat (globalDepth s - 1)"
proof -
  let ?h = "(2::int) ^ nat (globalDepth s - 1)"
  have suc: "nat (globalDepth s) = Suc (nat (globalDepth s - 1))"
    using g by linarith
  have len: "int (length (buckets s)) = 2 * ?h"
    using wf by (simp add: wf_def suc)
  have i2: "i < 2 * ?h" using i(2) by (simp add: suc)
  have hpos: "0 < ?h" by simp
  have sh: "shl1 (globalDepth s - 1) = Inr ?h"
    using wf g by (simp add: shl1_def wf_def)
  show "getImageIndex s i = Inr (image_slot s i)"
    by (simp add: getImageIndex_def sh image_slot_def)
  have j: "image_slot s i = (if i < ?h then i + ?h else i - ?h)"
    using len by (simp add: image_slot_def)
  show "0 \<le> image_slot s i" "image_slot s i < int (length (buckets s))" "image_slot s i \<noteq> i"
    using i(1) i2 len hpos unfolding j by (simp_all split: if_splits)
  show "\<exists>lo. lo < 2 ^ nat (globalDepth s - 1) \<and> min i (image_slot s i) = int lo \<and>
              max i (image_slot s i) = int lo + 2 ^ nat (globalDepth s - 1)"
  proof (cases "i < ?h")
    case True
    then have "nat i < 2 ^ nat (globalDepth s - 1)" "min i (image_slot s i) = int (nat i)"
      "max i (image_slot s i) = int (nat i) + ?h"
      using i(1) j by (simp_all add: nat_less_iff)
    then show ?thesis by blast
  next
    case False
    then have "nat (i - ?h) < 2 ^ nat (globalDepth s - 1)" "min i (image_slot s i) = int (nat (i - ?h))"
      "max i (image_slot s i) = int (nat (i - ?h)) + ?h"
      using i2 j by (simp_all add: nat_less_iff)
    then show ?thesis by blast
  qed
qed

text \<open>\<open>remove\<close>, case by case.\<close>

lemma remove_eq:
  assumes inv: "invariant s" and g: "1 \<le> globalDepth s"
    and idx: "getBucketIndex s key = Inr i" and i0: "0 \<le> i"
  shows "remove key s =
     (if image_slot s i \<noteq> i \<and> underfull (erased key i s) i \<and> underfull (erased key i s) (image_slot s i)
      then if buckets s ! nat i = buckets s ! nat (image_slot s i)
           then Inl UseAfterFree
           else Inr (shrunk (merged (min i (image_slot s i)) (max i (image_slot s i)) (erased key i s)))
      else Inr (shrunk (erased key i s)))"
    and "remove key s = Inr s' \<Longrightarrow> invariant s'"
proof -
  from inv have wf: "wf s" and cap: "within_capacity s" by (simp_all add: invariant_def)
  let ?j = "image_slot s i"
  let ?s1 = "erased key i s"
  let ?p = "buckets s ! nat i"
  have "i = crem key (2 ^ nat (globalDepth s))"
    using getBucketIndex_wf [OF wf, of key] idx by simp
  then have ilt: "i < 2 ^ nat (globalDepth s)"
    using crem_less [of "2 ^ nat (globalDepth s)" key] by simp
  then have ilen: "i < int (length (buckets s))"
    using wf_length [OF wf] by simp
  note im = image_slot_pair [OF wf g i0 ilt]
  have sl: "slot s i = Inr ?p" using i0 ilen by (rule slot_int)
  have dr: "deref s ?p = Inr (bucket_at s ?p)"
    using i0 ilen by (intro wf_deref [OF wf]) simp
  have s1: "store ?p (bucket_erase key (bucket_at s ?p)) s = ?s1"
    by (simp add: erased_def)
  have inv1: "invariant ?s1" using inv i0 ilen by (rule invariant_erased)
  then have wf1: "wf ?s1" by (simp add: invariant_def)
  have c1: "0 \<le> bucketSize ?s1" "bucketSize ?s1 < 2 ^ 31"
    using cap by (simp_all add: within_capacity_def)
  have sm: "small ?s1 i = Inr (underfull ?s1 i)" "small ?s1 ?j = Inr (underfull ?s1 ?j)"
    using small_eq [OF wf1 c1] i0 ilen im(2,3) by simp_all
  have mc: "merge_condition ?s1 i ?j = Inr (underfull ?s1 i \<and> underfull ?s1 ?j)"
    using im(4) by (simp add: merge_condition_def sm)
  have unf: "remove key s =
      andThen (if underfull ?s1 i \<and> underfull ?s1 ?j then merge (min i ?j) (max i ?j) ?s1 else Inr ?s1)
        shrink_check"
    unfolding remove_def idx andThen_Inr im(1) sl dr Let_def s1 mc ..
  from im(5) obtain lo where lo: "lo < 2 ^ nat (globalDepth s - 1)" "min i ?j = int lo"
    "max i ?j = int lo + 2 ^ nat (globalDepth s - 1)"
    by blast
  let ?hi = "lo + 2 ^ nat (globalDepth s - 1)"
  have nhi: "nat (int lo + 2 ^ nat (globalDepth s - 1)) = ?hi"
    by (simp add: nat_add_distrib nat_power_eq)
  have suc: "nat (globalDepth s) = Suc (nat (globalDepth s - 1))"
    using g by linarith
  have hilt: "?hi < length (buckets s)"
    using lo(1) wf by (simp add: wf_def suc)
  have rng: "0 \<le> int lo" "int lo < int (length (buckets ?s1))"
    "0 \<le> int lo + 2 ^ nat (globalDepth s - 1)"
    "int lo + 2 ^ nat (globalDepth s - 1) < int (length (buckets ?s1))"
  proof -
    have "int ?hi < int (length (buckets s))" using hilt by (simp only: of_nat_less_iff)
    then show "int lo + 2 ^ nat (globalDepth s - 1) < int (length (buckets ?s1))" by simp
    have "lo < length (buckets s)" using hilt by linarith
    then show "int lo < int (length (buckets ?s1))" by simp
  qed simp_all
  have pair: "{nat i, nat ?j} = {lo, ?hi}"
  proof -
    have "{i, ?j} = {min i ?j, max i ?j}" by (auto simp: min_def max_def)
    then have "{i, ?j} = {int lo, int ?hi}" using lo by simp
    then have "nat ` {i, ?j} = nat ` {int lo, int ?hi}" by simp
    then show ?thesis by (simp add: nhi)
  qed
  have same_iff: "buckets s ! nat i = buckets s ! nat ?j \<longleftrightarrow> buckets s ! lo = buckets s ! ?hi"
    using pair by (auto simp: doubleton_eq_iff)
  have uf_iff: "underfull ?s1 i \<and> underfull ?s1 ?j \<longleftrightarrow>
      underfull ?s1 (int lo) \<and> underfull ?s1 (int lo + 2 ^ nat (globalDepth s - 1))"
    using pair unfolding underfull_def nhi nat_int by (auto simp: doubleton_eq_iff)
  have shr1: "shrink_check ?s1 = Inr (shrunk ?s1)"
    using wf1 g by (intro shrink_check_eq) simp_all
  have merged_case: "merge (min i ?j) (max i ?j) ?s1 = Inr (merged (min i ?j) (max i ?j) ?s1) \<and>
      shrink_check (merged (min i ?j) (max i ?j) ?s1) = Inr (shrunk (merged (min i ?j) (max i ?j) ?s1)) \<and>
      invariant (shrunk (merged (min i ?j) (max i ?j) ?s1))"
    if ne: "buckets s ! nat i \<noteq> buckets s ! nat ?j" and uf: "underfull ?s1 i \<and> underfull ?s1 ?j"
  proof -
    have ne': "buckets ?s1 ! lo \<noteq> buckets ?s1 ! (lo + 2 ^ nat (globalDepth ?s1 - 1))"
      using ne same_iff by simp
    have m: "merge (int lo) (int lo + 2 ^ nat (globalDepth s - 1)) ?s1
          = Inr (merged (int lo) (int lo + 2 ^ nat (globalDepth s - 1)) ?s1)"
      using ne' by (intro merge_distinct [OF wf1 rng]) (simp add: nhi)
    have invm: "invariant (merged (int lo) (int lo + 2 ^ nat (globalDepth ?s1 - 1)) ?s1)"
      using uf uf_iff lo(1) g by (intro invariant_merged [OF inv1 _ _ ne']) simp_all
    then have wfm: "wf (merged (int lo) (int lo + 2 ^ nat (globalDepth s - 1)) ?s1)"
      by (simp add: invariant_def)
    have "shrink_check (merged (int lo) (int lo + 2 ^ nat (globalDepth s - 1)) ?s1)
          = Inr (shrunk (merged (int lo) (int lo + 2 ^ nat (globalDepth s - 1)) ?s1))"
      using g by (intro shrink_check_eq [OF wfm]) simp
    moreover have "invariant (shrunk (merged (int lo) (int lo + 2 ^ nat (globalDepth s - 1)) ?s1))"
      using invm g by (intro invariant_shrunk) simp_all
    ultimately show ?thesis
      using m by (simp add: lo)
  qed
  have same_case: "merge (min i ?j) (max i ?j) ?s1 = Inl UseAfterFree"
    if eq: "buckets s ! nat i = buckets s ! nat ?j"
  proof -
    have "buckets ?s1 ! nat (int lo) = buckets ?s1 ! nat (int lo + 2 ^ nat (globalDepth s - 1))"
      using eq same_iff by (simp add: nhi)
    then show ?thesis
      unfolding lo by (rule merge_same [OF wf1 rng])
  qed
  show eq: "remove key s =
     (if ?j \<noteq> i \<and> underfull ?s1 i \<and> underfull ?s1 ?j
      then if buckets s ! nat i = buckets s ! nat ?j
           then Inl UseAfterFree
           else Inr (shrunk (merged (min i ?j) (max i ?j) ?s1))
      else Inr (shrunk ?s1))"
  proof (cases "underfull ?s1 i \<and> underfull ?s1 ?j")
    case False
    then show ?thesis unfolding unf using shr1 by auto
  next
    case uf: True
    show ?thesis
    proof (cases "buckets s ! nat i = buckets s ! nat ?j")
      case True
      then show ?thesis unfolding unf using uf im(4) same_case by simp
    next
      case False
      then show ?thesis unfolding unf using uf im(4) merged_case by simp
    qed
  qed
  show "invariant s'" if r: "remove key s = Inr s'"
  proof (cases "underfull ?s1 i \<and> underfull ?s1 ?j")
    case False
    then have "s' = shrunk ?s1" using r eq im(4) by auto
    then show ?thesis using inv1 g by (simp add: invariant_shrunk)
  next
    case uf: True
    then have ne: "buckets s ! nat i \<noteq> buckets s ! nat ?j"
      using r eq im(4) by auto
    then have "s' = shrunk (merged (min i ?j) (max i ?j) ?s1)"
      using r eq im(4) uf by simp
    then show ?thesis using merged_case [OF ne uf] by simp
  qed
qed

section \<open>The tables that the public operations produce\<close>

subsection \<open>The constructor\<close>

lemma construct_loop_step:
  assumes "k < m"
  shows "construct_loop sz d k
     \<lparr>globalDepth = d, bucketSize = sz, buckets = map Suc [0 ..< k] @ replicate (m - k) 0,
      cells = None # replicate k (Some \<lparr>bsize = sz, localDepth = d, data = []\<rparr>)\<rparr>
   = \<lparr>globalDepth = d, bucketSize = sz, buckets = map Suc [0 ..< Suc k] @ replicate (m - Suc k) 0,
      cells = None # replicate (Suc k) (Some \<lparr>bsize = sz, localDepth = d, data = []\<rparr>)\<rparr>"
proof -
  have rep: "replicate (m - k) (0::nat) = 0 # replicate (m - Suc k) 0"
    using assms by (metis Suc_diff_Suc replicate_Suc)
  have upd: "(map Suc [0 ..< k] @ replicate (m - k) 0)[k := Suc k]
       = map Suc [0 ..< Suc k] @ replicate (m - Suc k) 0"
    by (simp add: list_update_append rep)
  have app: "replicate k x @ [x] = replicate (Suc k) x" for x :: "DataBucket option"
    by (simp add: replicate_append_same)
  show ?thesis
    unfolding construct_loop_def new_bucket_def prod.case Let_def
    using upd app by simp
qed

lemma construct_loop_fold:
  "k \<le> m \<Longrightarrow>
   fold (construct_loop sz d) [0 ..< k]
     \<lparr>globalDepth = d, bucketSize = sz, buckets = replicate m 0, cells = [None]\<rparr>
   = \<lparr>globalDepth = d, bucketSize = sz, buckets = map Suc [0 ..< k] @ replicate (m - k) 0,
      cells = None # replicate k (Some \<lparr>bsize = sz, localDepth = d, data = []\<rparr>)\<rparr>"
proof (induction k)
  case 0
  show ?case by simp
next
  case (Suc k)
  then have k: "k < m" and IH: "fold (construct_loop sz d) [0 ..< k]
     \<lparr>globalDepth = d, bucketSize = sz, buckets = replicate m 0, cells = [None]\<rparr>
   = \<lparr>globalDepth = d, bucketSize = sz, buckets = map Suc [0 ..< k] @ replicate (m - k) 0,
      cells = None # replicate k (Some \<lparr>bsize = sz, localDepth = d, data = []\<rparr>)\<rparr>"
    by simp_all
  have "fold (construct_loop sz d) [0 ..< Suc k]
     \<lparr>globalDepth = d, bucketSize = sz, buckets = replicate m 0, cells = [None]\<rparr>
    = construct_loop sz d k (fold (construct_loop sz d) [0 ..< k]
     \<lparr>globalDepth = d, bucketSize = sz, buckets = replicate m 0, cells = [None]\<rparr>)"
    by simp
  then show ?case
    unfolding IH construct_loop_step [OF k] .
qed

lemma construct_eq:
  assumes "construct d sz = Inr s"
  shows "0 \<le> d" "d < 31"
    "s = \<lparr>globalDepth = d, bucketSize = sz, buckets = map Suc [0 ..< 2 ^ nat d],
          cells = None # replicate (2 ^ nat d) (Some \<lparr>bsize = sz, localDepth = d, data = []\<rparr>)\<rparr>"
proof -
  from assms obtain n where n: "shl1 d = Inr n"
    unfolding construct_def andThen_eq_Inr by blast
  then have nn: "n = 2 ^ nat d"
    by (simp add: shl1_eq_Inr)
  from n show d: "0 \<le> d" "d < 31"
    by (simp_all add: shl1_eq_Inr)
  have np: "nat n = 2 ^ nat d" unfolding nn by (simp add: nat_power_eq)
  have r0: "resize n \<lparr>globalDepth = d, bucketSize = sz, buckets = [], cells = [None]\<rparr>
      = \<lparr>globalDepth = d, bucketSize = sz, buckets = replicate (2 ^ nat d) 0, cells = [None]\<rparr>"
    unfolding resize_def np by simp
  have "construct d sz = Inr (fold (construct_loop sz d) [0 ..< 2 ^ nat d]
     \<lparr>globalDepth = d, bucketSize = sz, buckets = replicate (2 ^ nat d) 0, cells = [None]\<rparr>)"
    unfolding construct_def n andThen_Inr Let_def r0 by simp
  then have "s = fold (construct_loop sz d) [0 ..< 2 ^ nat d]
     \<lparr>globalDepth = d, bucketSize = sz, buckets = replicate (2 ^ nat d) 0, cells = [None]\<rparr>"
    using assms by simp
  then show "s = \<lparr>globalDepth = d, bucketSize = sz, buckets = map Suc [0 ..< 2 ^ nat d],
          cells = None # replicate (2 ^ nat d) (Some \<lparr>bsize = sz, localDepth = d, data = []\<rparr>)\<rparr>"
    using construct_loop_fold [of "2 ^ nat d" "2 ^ nat d" sz d] by simp
qed

lemma construct_invariant:
  assumes c: "construct d sz = Inr s" and sz: "0 \<le> sz" "sz < 2 ^ 31"
  shows "invariant s"
proof -
  note e = construct_eq [OF c]
  let ?m = "(2::nat) ^ nat d"
  have B: "buckets s = map Suc [0 ..< ?m]" and g: "globalDepth s = d" and cs: "bucketSize s = sz"
    and C: "cells s = None # replicate ?m (Some \<lparr>bsize = sz, localDepth = d, data = []\<rparr>)"
    using e(3) by simp_all
  have at: "bucket_at s p = \<lparr>bsize = sz, localDepth = d, data = []\<rparr>" if "p \<in> set (buckets s)" for p
  proof -
    from that have "p \<in> Suc ` {0 ..< ?m}" unfolding B by (simp only: set_map set_upt)
    then obtain q where "p = Suc q" "q < ?m" by (cases p) auto
    then show ?thesis by (simp add: bucket_at_def C)
  qed
  have "wf s"
    unfolding wf_def
  proof (intro conjI ballI)
    show "0 \<le> globalDepth s" "globalDepth s < 31" using e(1,2) g by simp_all
    show "length (buckets s) = 2 ^ nat (globalDepth s)" by (simp add: B g)
    fix p assume "p \<in> set (buckets s)"
    then have "p \<in> Suc ` {0 ..< ?m}" unfolding B by (simp only: set_map set_upt)
    then obtain q where q: "p = Suc q" "q < ?m" by (cases p) auto
    show "0 < p" "p < length (cells s)" "cells s ! p \<noteq> None"
      using q by (simp_all add: C)
  qed
  moreover have "private_upper (buckets s)"
    unfolding B by (rule private_upper_distinct) (simp add: distinct_map)
  moreover have "addressed s"
    using at by (simp add: addressed_def)
  moreover have "within_capacity s"
    using at sz cs by (simp add: within_capacity_def)
  moreover have "image_depth s"
    unfolding image_depth_def
  proof (intro allI impI)
    fix l :: nat
    assume g1: "1 \<le> globalDepth s" and l: "l < 2 ^ nat (globalDepth s - 1)"
    have "nat d = Suc (nat (d - 1))" using g1 g by linarith
    then have "?m = 2 * 2 ^ nat (d - 1)" by simp
    then have "l + 2 ^ nat (globalDepth s - 1) < length (buckets s)"
      using l by (simp add: B g)
    then have "buckets s ! (l + 2 ^ nat (globalDepth s - 1)) \<in> set (buckets s)"
      by (rule nth_mem)
    then show "localDepth (bucket_at s (buckets s ! (l + 2 ^ nat (globalDepth s - 1)))) = globalDepth s"
      using at g by simp
  qed
  moreover have "depth_zero s"
  proof -
    have "buckets s ! 0 \<in> set (buckets s)" by (simp add: B)
    then show ?thesis using at g by (simp add: depth_zero_def)
  qed
  ultimately show ?thesis
    by (simp add: invariant_def)
qed

lemma add_bucketSize:
  assumes "invariant s" "add n k s = Inr (r, s')"
  shows "bucketSize s' = bucketSize s"
  using add_ok [of n] assms unfolding add_ok_def by blast

lemma remove_invariant:
  assumes inv: "invariant s" and r: "remove key s = Inr s'"
  shows "invariant s'"
proof -
  from r obtain i j p where i: "getBucketIndex s key = Inr i" and j: "getImageIndex s i = Inr j"
    and p: "slot s i = Inr p"
    unfolding remove_def andThen_eq_Inr by blast
  have "1 \<le> globalDepth s"
    using j by (auto simp: getImageIndex_def andThen_eq_Inr shl1_eq_Inr)
  moreover have "0 \<le> i" using p by (simp add: slot_eq_Inr)
  ultimately show ?thesis
    using remove_eq(2) [OF inv _ i _ r] by simp
qed

lemma reachable_invariant: "reachable s \<Longrightarrow> invariant s"
proof (induction rule: reachable.induct)
  case (constructed d sz s)
  then show ?case by (rule construct_invariant)
next
  case (inserted s n key r s')
  then show ?case using add_invariant(1) by blast
next
  case (removed s key s')
  then show ?case using remove_invariant by blast
qed

subsection \<open>Sessions, and the table that \<^verbatim>\<open>splitImage\<close> receives\<close>

lemma run_reachable:
  "reachable s \<Longrightarrow> run n cs (Inr s) = Inr s' \<Longrightarrow> reachable s'"
proof (induction cs arbitrary: s)
  case Nil
  then show ?case by (simp add: run_def)
next
  case (Cons c cs)
  from Cons.prems(2) have r: "run n cs (exec n c s) = Inr s'"
    by (simp add: run_def)
  show ?case
  proof (cases "exec n c s")
    case (Inl e)
    have "run n cs (Inl e) = Inl e"
      by (induction cs) (simp_all add: run_def)
    then show ?thesis using r Inl by simp
  next
    case (Inr s1)
    have "reachable s1"
    proof (cases c)
      case (Insert x)
      then obtain q where "add n x s = Inr (q, s1)"
        using Inr by (auto simp: exec_def andThen_eq_Inr)
      then show ?thesis using Cons.prems(1) by (rule reachable.inserted [rotated])
    next
      case (Remove x)
      then have "remove x s = Inr s1" using Inr by (simp add: exec_def)
      then show ?thesis using Cons.prems(1) by (rule reachable.removed [rotated])
    qed
    then show ?thesis using Cons.IH r Inr by simp
  qed
qed

lemma session_reachable:
  assumes "session n cs = Inr s"
  shows "reachable s"
proof -
  obtain s0 where c: "construct 0 2 = Inr s0"
    by (simp add: construct_def shl1_def Let_def)
  have "reachable s0" using c by (rule reachable.constructed) simp_all
  then show ?thesis using assms unfolding session_def c by (rule run_reachable)
qed

text \<open>The loop of \<^verbatim>\<open>splitImage\<close> is a run of insert commands: the two reads at the head
  of its body are the first two reads of \<^verbatim>\<open>add\<close>.\<close>

lemma reinsert_exec:
  "reinsert (add (Suc n)) x acc = andThen acc (exec (Suc n) (Insert x))"
proof (cases acc)
  case (Inl e)
  then show ?thesis by simp
next
  case (Inr s)
  show ?thesis
  proof (cases "getBucketIndex s x")
    case (Inl e)
    then show ?thesis using Inr by (simp add: reinsert_def exec_def)
  next
    case i: (Inr i)
    show ?thesis
    proof (cases "slot s i")
      case (Inl e)
      then show ?thesis using Inr i by (simp add: reinsert_def exec_def)
    next
      case p: (Inr p)
      then show ?thesis using Inr i by (simp add: reinsert_def exec_def del: add.simps)
    qed
  qed
qed

lemma fold_reinsert_run:
  "fold (reinsert (add (Suc n))) xs acc = run (Suc n) (map Insert xs) acc"
proof (induction xs arbitrary: acc)
  case Nil
  show ?case by (simp add: run_def)
next
  case (Cons x xs)
  have "run (Suc n) (map Insert (x # xs)) acc
      = run (Suc n) (map Insert xs) (andThen acc (exec (Suc n) (Insert x)))"
    by (simp add: run_def del: add.simps)
  then show ?case
    using Cons.IH [of "reinsert (add (Suc n)) x acc"] by (simp add: reinsert_exec del: add.simps)
qed

lemma fold_reinsert_no_room:
  "xs \<noteq> [] \<Longrightarrow> \<exists>e. fold (reinsert (add 0)) xs acc = Inl e"
proof (cases xs)
  case Nil
  assume "xs \<noteq> []"
  then show ?thesis using Nil by simp
next
  case (Cons x rest)
  have "\<exists>e. reinsert (add 0) x acc = Inl e"
    by (cases acc) (auto simp: reinsert_def andThen_def split: sum.splits)
  then show ?thesis using Cons by auto
qed

text \<open>The overflowed bucket is the one that \<^verbatim>\<open>splitImage\<close> empties.\<close>

lemma overflow_table:
  fixes b' :: DataBucket
  assumes inv: "invariant s" and deep: "localDepth b = globalDepth s \<longrightarrow> globalDepth s < 30"
    and idx: "getBucketIndex s key = Inr i" "slot s i = Inr p" "deref s p = Inr b"
    and ovf: "bucket_insert key b = (2, b')"
  defines "t \<equiv> (if localDepth b = globalDepth s then extended (store p b' s) else store p b' s)"
  shows "(if localDepth b = globalDepth s then extend (store p b' s) else Inr (store p b' s)) = Inr t"
    and "wf t" and "1 \<le> globalDepth t" and "0 \<le> i" and "i < 2 ^ nat (globalDepth t)"
    and "buckets t ! nat (split_source t i) = p"
    and "0 < p" and "p < length (cells t)" and "cells t ! p = Some b'"
    and "bucketSize t = bucketSize s"
    and "length (cells t) \<notin> set (buckets t)"
proof -
  from inv have wf: "wf s" and im: "image_depth s" and dz: "depth_zero s"
    by (simp_all add: invariant_def)
  have r0: "0 \<le> i" and rlt: "nat i < length (buckets s)" and pr: "p = buckets s ! nat i"
    using idx(2) by (simp_all add: slot_eq_Inr)
  have pin: "p \<in> set (buckets s)" using rlt pr by simp
  have plt: "p < length (cells s)" and p0: "0 < p"
    using wf_live [OF wf pin] by simp_all
  have b: "b = bucket_at s p"
    using wf_deref [OF wf pin] idx(3) by simp
  have rpow: "i < 2 ^ nat (globalDepth s)"
    using rlt r0 wf_length [OF wf] by linarith
  have g0: "0 \<le> globalDepth s" using wf by (simp add: wf_def)
  have wfs: "wf (store p b' s)" using wf by (rule wf_store)
  show "0 \<le> i" by (rule r0)
  show "0 < p" by (rule p0)
  show "p < length (cells t)" using plt by (simp add: t_def)
  show "cells t ! p = Some b'" using plt by (simp add: t_def store_def)
  show "bucketSize t = bucketSize s" by (simp add: t_def)
  have fresh: "length (cells s) \<notin> set (buckets s)"
    using wf_live(2) [OF wf] by blast
  then show "length (cells t) \<notin> set (buckets t)" by (simp add: t_def)
  show "(if localDepth b = globalDepth s then extend (store p b' s) else Inr (store p b' s)) = Inr t"
  proof (cases "localDepth b = globalDepth s")
    case True
    have "extend (store p b' s) = Inr (extended (store p b' s))"
      using wfs deep True by (intro extend_eq) (simp_all add: wf_def)
    then show ?thesis using True by (simp add: t_def)
  next
    case False
    then show ?thesis by (simp add: t_def)
  qed
  show wft: "wf t"
  proof (cases "localDepth b = globalDepth s")
    case True
    then show ?thesis
      using wfs deep wf_extended [of "store p b' s"] by (simp add: t_def)
  next
    case False
    then show ?thesis using wfs by (simp add: t_def)
  qed
  have "1 \<le> globalDepth t \<and> i < 2 ^ nat (globalDepth t) \<and> buckets t ! nat (split_source t i) = p"
  proof (cases "localDepth b = globalDepth s")
    case True
    then have t: "t = extended (store p b' s)" by (simp add: t_def)
    have half: "nat (globalDepth s + 1 - 1) = nat (globalDepth s)" by simp
    have "(2::int) ^ nat (globalDepth s) \<le> 2 ^ nat (globalDepth s + 1)"
      by (intro power_increasing) simp_all
    then have rt: "i < 2 ^ nat (globalDepth s + 1)" using rpow by linarith
    have src: "split_source t i = i"
      using rpow by (simp add: t split_source_def)
    have "buckets t ! nat i = p"
      using rlt pr by (simp add: t nth_append)
    then show ?thesis
      using g0 rt by (simp add: src) (simp add: t)
  next
    case False
    then have t: "t = store p b' s" by (simp add: t_def)
    have g1: "1 \<le> globalDepth s"
    proof (rule ccontr)
      assume "\<not> 1 \<le> globalDepth s"
      then have z: "globalDepth s = 0" using g0 by simp
      then have "i = 0" using rpow r0 by simp
      then have "localDepth b = 0" using dz z pr b by (simp add: depth_zero_def)
      then show False using False z by simp
    qed
    have own: "buckets s ! (l + 2 ^ nat (globalDepth s - 1)) \<noteq> p"
      if "l < 2 ^ nat (globalDepth s - 1)"
        "buckets s ! l \<noteq> buckets s ! (l + 2 ^ nat (globalDepth s - 1))" for l
    proof
      assume "buckets s ! (l + 2 ^ nat (globalDepth s - 1)) = p"
      moreover have "localDepth (bucket_at s (buckets s ! (l + 2 ^ nat (globalDepth s - 1)))) = globalDepth s"
        using im g1 that by (simp add: image_depth_def)
      ultimately show False using False b by simp
    qed
    have src: "buckets s ! nat (split_source s i) = p"
    proof (cases "i < 2 ^ nat (globalDepth s - 1)")
      case True
      then show ?thesis using pr by (simp add: split_source_def)
    next
      case upper: False
      let ?h = "(2::nat) ^ nat (globalDepth s - 1)"
      let ?l = "nat (i - 2 ^ nat (globalDepth s - 1))"
      have suc: "nat (globalDepth s) = Suc (nat (globalDepth s - 1))"
        using g1 by linarith
      have "i < 2 * 2 ^ nat (globalDepth s - 1)"
        using rpow by (simp add: suc)
      then have l: "?l < ?h" using upper by (simp add: nat_less_iff)
      have "int (?l + ?h) = i" using upper by simp
      then have lh: "?l + ?h = nat i" by linarith
      have "buckets s ! ?l = buckets s ! (?l + ?h)"
        using own [OF l] pr lh by auto
      then show ?thesis
        using upper pr lh by (simp add: split_source_def)
    qed
    have "split_source t i = split_source s i" by (simp add: t)
    then show ?thesis
      using g1 rpow src by (simp add: t)
  qed
  then show "1 \<le> globalDepth t" "i < 2 ^ nat (globalDepth t)" "buckets t ! nat (split_source t i) = p"
    by simp_all
qed

section \<open>The split of an overflowed bucket\<close>



section \<open>Inserting a key twice\<close>

text \<open>
  Claim C9: on a table that the public operations have produced, inserting a key and
  then inserting it again gives what inserting it once gives: the same table, or the
  same fault where the first insert has none to give. When the first call of \<^verbatim>\<open>add\<close>
  has returned, every further call of \<^verbatim>\<open>add\<close> for that key (with room for one call, it
  needs no nested one) finds the key in the bucket of its slot: \<^verbatim>\<open>DataBucket::insert\<close>
  answers 1, already present, and leaves the bucket as it is; \<^verbatim>\<open>add\<close> then neither
  extends nor splits and returns the table unchanged.
\<close>

theorem second_insert_changes_nothing:
  assumes "reachable s"
  shows "andThen (exec n (Insert key) s) (exec (Suc m) (Insert key)) = exec n (Insert key) s \<and>
     (\<forall>r s'. add n key s = Inr (r, s') \<longrightarrow>
        (\<exists>i p b. getBucketIndex s' key = Inr i \<and> slot s' i = Inr p \<and> deref s' p = Inr b \<and>
           bucket_insert key b = (1, b) \<and> add (Suc m) key s' = Inr (i, s')))"
proof -
  have inv: "invariant s" using assms(1) by (rule reachable_invariant)
  have second: "\<exists>i p b. getBucketIndex s' key = Inr i \<and> slot s' i = Inr p \<and> deref s' p = Inr b \<and>
           bucket_insert key b = (1, b) \<and> add (Suc m) key s' = Inr (i, s')"
    if a: "add n key s = Inr (r, s')" for r s'
  proof -
    note A = add_invariant [OF inv a]
    from A(2) obtain i p b where i: "getBucketIndex s' key = Inr i" and p: "slot s' i = Inr p"
      and b: "deref s' p = Inr b" and k: "key \<in> set (data b)"
      unfolding present_iff by blast
    have bi: "bucket_insert key b = (1, b)"
      using k by (simp add: bucket_insert_def)
    have live: "p < length (cells s')" "cells s' ! p = Some b"
      using b by (auto simp: deref_def split: if_splits option.splits)
    have st: "store p b s' = s'"
      using live by (rule store_same)
    have "add (Suc m) key s' = Inr (i, s')"
      unfolding add_Suc_unfold [OF i p b] bi using st by simp
    then show ?thesis
      using i p b bi by blast
  qed
  have "andThen (exec n (Insert key) s) (exec (Suc m) (Insert key)) = exec n (Insert key) s"
  proof (cases "add n key s")
    case (Inl e)
    then show ?thesis by (simp add: exec_def)
  next
    case (Inr rs)
    obtain r s' where rs: "rs = (r, s')" by (cases rs)
    from second [of r s'] Inr rs obtain i where "add (Suc m) key s' = Inr (i, s')"
      by auto
    then show ?thesis
      using Inr rs by (simp add: exec_def del: add.simps)
  qed
  then show ?thesis
    using second by blast
qed

theorem second_insert_changes_nothing_witness:
  "reachable table_1_2 \<and> add 8 3 table_1_2 = Inr (0, table_1_3) \<and>
   andThen (exec 8 (Insert 3) table_1_2) (exec (Suc 0) (Insert 3)) = exec 8 (Insert 3) table_1_2 \<and>
   (\<exists>i p b. getBucketIndex table_1_3 3 = Inr i \<and> slot table_1_3 i = Inr p \<and>
      deref table_1_3 p = Inr b \<and> bucket_insert 3 b = (1, b) \<and>
      add (Suc 0) 3 table_1_3 = Inr (i, table_1_3))"
proof -
  have "session 8 [Insert 1, Insert 2] = Inr table_1_2"
    by code_simp
  then have h1: "reachable table_1_2"
    by (rule session_reachable)
  have h2: "add 8 3 table_1_2 = Inr (0, table_1_3)"
    by code_simp
  show ?thesis
    using second_insert_changes_nothing [OF h1, of 8 3 0] h1 h2 by blast
qed

section \<open>The directory at depth 30\<close>

lemma construct_returns: "0 \<le> d \<Longrightarrow> d < 31 \<Longrightarrow> \<exists>s. construct d sz = Inr s"
  by (simp add: construct_def shl1_Inr Let_def)

lemma construct_first_slot:
  assumes "construct d sz = Inr s"
  shows "globalDepth s = d" "bucketSize s = sz" "buckets s ! 0 = 1"
    "cells s ! 1 = Some \<lparr>bsize = sz, localDepth = d, data = []\<rparr>" "1 < length (cells s)"
proof -
  note e = construct_eq(3) [OF assms]
  have pos: "0 < (2::nat) ^ nat d" by simp
  show "globalDepth s = d" "bucketSize s = sz" using e by simp_all
  have "buckets s = map Suc [0 ..< 2 ^ nat d]" using e by simp
  then show "buckets s ! 0 = 1" using pos by (simp add: nth_map del: upt_Suc)
  have c: "cells s = None # replicate (2 ^ nat d) (Some \<lparr>bsize = sz, localDepth = d, data = []\<rparr>)"
    using e by simp
  show "cells s ! 1 = Some \<lparr>bsize = sz, localDepth = d, data = []\<rparr>"
    unfolding c using pos by simp
  show "1 < length (cells s)"
    unfolding c using pos by simp
qed

text \<open>Three keys for slot 0 of a directory of depth 30 and capacity 2.\<close>

lemma depth_30_overflow:
  assumes c: "construct 30 2 = Inr s0"
  defines "s1 \<equiv> store 1 \<lparr>bsize = 2, localDepth = 30, data = [0]\<rparr> s0"
  defines "s2 \<equiv> store 1 \<lparr>bsize = 2, localDepth = 30, data = [0, 1073741824]\<rparr> s1"
  shows "add (Suc 0) 0 s0 = Inr (0, s1)"
    and "add (Suc 0) 1073741824 s1 = Inr (0, s2)"
    and "wf s2" and "globalDepth s2 = 30"
    and "getBucketIndex s2 (- 1073741824) = Inr 0" and "slot s2 0 = Inr 1"
    and "deref s2 1 = Inr \<lparr>bsize = 2, localDepth = 30, data = [0, 1073741824]\<rparr>"
    and "extend (store 1 \<lparr>bsize = 2, localDepth = 30, data = [- 1073741824, 0, 1073741824]\<rparr> s2)
           = Inl ShiftTooLarge"
    and "add (Suc n) (- 1073741824) s2 = Inl ShiftTooLarge"
proof -
  note f = construct_first_slot [OF c]
  have wf0: "wf s0"
    using construct_invariant [OF c] by (simp add: invariant_def)
  have wf1: "wf s1" unfolding s1_def using wf0 by (rule wf_store)
  show wf2: "wf s2" unfolding s2_def using wf1 by (rule wf_store)
  show g2: "globalDepth s2 = 30" by (simp add: s2_def s1_def f(1))
  have pw: "(2::int) ^ nat 30 = 1073741824" by simp
  have i0: "getBucketIndex s0 0 = Inr 0"
    using getBucketIndex_wf [OF wf0, of 0] by (simp add: crem_def)
  have sl0: "slot s0 0 = Inr 1"
    using wf0 f(3) by (simp add: slot_def wf_def)
  have dr0: "deref s0 1 = Inr \<lparr>bsize = 2, localDepth = 30, data = []\<rparr>"
    using f(4,5) by (simp add: deref_def)
  have b0: "bucket_insert 0 \<lparr>bsize = 2, localDepth = 30, data = []\<rparr>
      = (0, \<lparr>bsize = 2, localDepth = 30, data = [0]\<rparr>)"
    by (simp add: bucket_insert_def to_size_t_def)
  show "add (Suc 0) 0 s0 = Inr (0, s1)"
    unfolding add_Suc_unfold [OF i0 sl0 dr0] b0 by (simp add: s1_def)
  have i1: "getBucketIndex s1 1073741824 = Inr 0"
    using getBucketIndex_wf [OF wf1, of 1073741824] by (simp add: crem_def s1_def f(1))
  have sl1: "slot s1 0 = Inr 1"
    using sl0 by (simp add: s1_def)
  have dr1: "deref s1 1 = Inr \<lparr>bsize = 2, localDepth = 30, data = [0]\<rparr>"
    unfolding s1_def using f(5) by (simp add: deref_store)
  have b1: "bucket_insert 1073741824 \<lparr>bsize = 2, localDepth = 30, data = [0]\<rparr>
      = (0, \<lparr>bsize = 2, localDepth = 30, data = [0, 1073741824]\<rparr>)"
    by (simp add: bucket_insert_def to_size_t_def)
  show "add (Suc 0) 1073741824 s1 = Inr (0, s2)"
    unfolding add_Suc_unfold [OF i1 sl1 dr1] b1 by (simp add: s2_def)
  show i2: "getBucketIndex s2 (- 1073741824) = Inr 0"
    using getBucketIndex_wf [OF wf2, of "- 1073741824"] by (simp add: crem_def g2)
  show sl2: "slot s2 0 = Inr 1"
    using sl1 by (simp add: s2_def)
  show dr2: "deref s2 1 = Inr \<lparr>bsize = 2, localDepth = 30, data = [0, 1073741824]\<rparr>"
    unfolding s2_def using f(5) by (simp add: deref_store s1_def)
  have b2: "bucket_insert (- 1073741824) \<lparr>bsize = 2, localDepth = 30, data = [0, 1073741824]\<rparr>
      = (2, \<lparr>bsize = 2, localDepth = 30, data = [- 1073741824, 0, 1073741824]\<rparr>)"
    by (simp add: bucket_insert_def to_size_t_def)
  show ex: "extend (store 1 \<lparr>bsize = 2, localDepth = 30, data = [- 1073741824, 0, 1073741824]\<rparr> s2)
           = Inl ShiftTooLarge"
    by (rule extend_too_deep) (simp add: g2)
  show "add (Suc n) (- 1073741824) s2 = Inl ShiftTooLarge"
    unfolding add_Suc_unfold [OF i2 sl2 dr2] b2 using ex by (simp add: g2)
qed



end
